theory Spec2Isabelle
  imports Complex_Main
begin

section \<open>CRR binomial option pricing (YUSHANYAO.py)\<close>

text \<open>
  A shallow embedding of \<^verbatim>\<open>src/YUSHANYAO.py\<close>: the two pricers
  \<^verbatim>\<open>CRR_european_option_value\<close> and \<^verbatim>\<open>CRR_american_option_value\<close> and the
  lattice-reading sensitivities \<^verbatim>\<open>calculate_delta\<close>, \<^verbatim>\<open>calculate_gamma\<close> and
  \<^verbatim>\<open>calculate_theta\<close>.

  Conventions of the embedding:
  \<^item> The scalar arguments are built-in Python floats, as in the source's own calls (lines
    130-136), and the step count \<^verbatim>\<open>M\<close> is a built-in Python integer, an \<open>int\<close> here. A
    numpy scalar passed for \<^verbatim>\<open>T\<close> is not modelled: numpy divides by zero with a warning
    where Python raises.
  \<^item> The value of a float is a real number, and the arithmetic on values is exact. Where
    the float result of a statement decides whether the statement raises (the overflow of
    \<^verbatim>\<open>math.exp\<close>, a divisor that is \<open>0.0\<close>), the model rounds that result as IEEE double
    precision does, the argument of \<^verbatim>\<open>math.exp\<close> taken exact and its result correctly
    rounded; see the subsection on the tree parameters. A product that overflows to
    \<^verbatim>\<open>inf\<close>, what the program computes from \<^verbatim>\<open>inf\<close> or \<^verbatim>\<open>nan\<close>, and the limits of
    memory and of the size of an array are outside the model.
  \<^item> The exceptions the source can raise at given arguments are values of the type
    \<open>error\<close>; a function that can raise returns \<open>error + result\<close>, \<open>Inl\<close> the
    exception.
  \<^item> A two-dimensional numpy array is the list of its rows. All arrays of the program are
    square, and the only array with no rows that occurs has shape \<open>(0, 0)\<close>.
  \<^item> \<^verbatim>\<open>otype\<close> is a string, as in the source: the pricers take the call branch on
    \<^verbatim>\<open>'call'\<close> and the put branch on every other value.
\<close>

subsection \<open>Errors and arrays\<close>

datatype error = ZeroDivisionError | ValueError | OverflowError | IndexError

type_synonym matrix = "real list list"

text \<open>\<^verbatim>\<open>np.arange(n)\<close>: the integers \<open>0, ..., n - 1\<close>, none when \<open>n \<le> 0\<close>.\<close>

definition arange :: "int \<Rightarrow> int list" where
  "arange n = map int [0..<nat n]"

text \<open>
  \<^verbatim>\<open>np.resize(a, (n, n))\<close>: a negative dimension raises \<^verbatim>\<open>ValueError\<close>; otherwise the
  result is filled, row by row, with repeated copies of \<open>a\<close> (with zeros when \<open>a\<close> is
  empty).
\<close>

definition resize :: "int list \<Rightarrow> int \<Rightarrow> error + int list list" where
  "resize a n =
     (if n < 0 then Inl ValueError
      else Inr (map (\<lambda>i. map (\<lambda>j. if a = [] then 0 else a ! ((i * nat n + j) mod length a))
                               [0..<nat n])
                    [0..<nat n]))"

text \<open>\<^verbatim>\<open>np.transpose\<close> of a two-dimensional array.\<close>

definition np_transpose :: "'a list list \<Rightarrow> 'a list list" where
  "np_transpose A =
     (case A of [] \<Rightarrow> [] | r # _ \<Rightarrow> map (\<lambda>j. map (\<lambda>row. row ! j) A) [0..<length r])"

text \<open>Elementwise operations: one array with a scalar, and two arrays of the same shape.\<close>

definition mat_map :: "('a \<Rightarrow> 'b) \<Rightarrow> 'a list list \<Rightarrow> 'b list list" where
  "mat_map f A = map (map f) A"

definition mat_map2 :: "('a \<Rightarrow> 'b \<Rightarrow> 'c) \<Rightarrow> 'a list list \<Rightarrow> 'b list list \<Rightarrow> 'c list list" where
  "mat_map2 f A B = map2 (map2 f) A B"

text \<open>
  The slice \<^verbatim>\<open>V[a:b, c]\<close>, read: column \<open>c\<close> of the rows \<open>a, ..., b - 1\<close>. The pricers
  use it with \<open>b\<close> at most the number of rows and \<open>c\<close> a column of the array, where
  numpy neither clips nor raises: the array is square of size \<open>M + 1\<close> in every pass
  (lemmas \<open>square_european_step\<close> and \<open>square_american_step\<close> below), \<open>z < M\<close>, and the
  indices are at most \<open>M\<close>.
\<close>

definition get_col :: "matrix \<Rightarrow> nat \<Rightarrow> nat \<Rightarrow> nat \<Rightarrow> real list" where
  "get_col V a b c = map (\<lambda>row. row ! c) (take (b - a) (drop a V))"

text \<open>The slice assignment \<^verbatim>\<open>V[a:b, c] = vals\<close>, under the same bounds.\<close>

definition set_col :: "matrix \<Rightarrow> nat \<Rightarrow> nat \<Rightarrow> nat \<Rightarrow> real list \<Rightarrow> matrix" where
  "set_col V a b c vals =
     map (\<lambda>i. if a \<le> i \<and> i < b then (V ! i)[c := vals ! (i - a)] else V ! i) [0..<length V]"

text \<open>
  A slice assignment as a value: the array it targets, of the two arrays a pricer
  returns, the slice \<^verbatim>\<open>[first:stop, col]\<close> and the values assigned. \<open>assign\<close> carries it
  out on the array it targets, and \<open>assigned_cells\<close> lists the cells it assigns.
\<close>

datatype array_id = Array_V | Array_S

record slice_assignment =
  sa_target :: array_id
  sa_first :: nat
  sa_stop :: nat
  sa_col :: nat
  sa_vals :: "real list"

definition assign :: "matrix \<Rightarrow> slice_assignment \<Rightarrow> matrix" where
  "assign A g = set_col A (sa_first g) (sa_stop g) (sa_col g) (sa_vals g)"

definition assigned_cells :: "slice_assignment \<Rightarrow> (array_id \<times> nat \<times> nat) list" where
  "assigned_cells g = map (\<lambda>i. (sa_target g, i, sa_col g)) [sa_first g..<sa_stop g]"

text \<open>
  The read \<^verbatim>\<open>C[i, j]\<close> with non-negative constant indices: numpy raises
  \<^verbatim>\<open>IndexError\<close> when an index is not below the dimension.
\<close>

definition cell :: "matrix \<Rightarrow> nat \<Rightarrow> nat \<Rightarrow> error + real" where
  "cell C i j = (if i < length C \<and> j < length (C ! i) then Inr (C ! i ! j) else Inl IndexError)"

definition square :: "nat \<Rightarrow> 'a list list \<Rightarrow> bool" where
  "square n A \<longleftrightarrow> length A = n \<and> (\<forall>row \<in> set A. length row = n)"

subsection \<open>The tree parameters (lines 29-35 and 68-75)\<close>

record tree_params =
  p_dt :: real
  p_df :: real
  p_u :: real
  p_d :: real
  p_q :: real

text \<open>
  Three facts about a double-precision result decide a raise in these lines. A real
  number \<open>y\<close> rounds to \<^verbatim>\<open>inf\<close> when \<open>\<bar>y\<bar> \<ge> 2^1024 - 2^970\<close> (the largest float plus half
  a unit in its last place), to \<open>0.0\<close> when \<open>\<bar>y\<bar> \<le> 2^-1075\<close> (half the smallest
  subnormal), and to \<open>1.0\<close> when \<open>1 - 2^-54 \<le> y \<le> 1 + 2^-53\<close>.
\<close>

definition float_overflow :: "real \<Rightarrow> bool" where
  "float_overflow y \<longleftrightarrow> 2 ^ 1024 - 2 ^ 970 \<le> \<bar>y\<bar>"

definition rounds_to_zero :: "real \<Rightarrow> bool" where
  "rounds_to_zero y \<longleftrightarrow> \<bar>y\<bar> \<le> 1 / 2 ^ 1075"

definition rounds_to_one :: "real \<Rightarrow> bool" where
  "rounds_to_one y \<longleftrightarrow> 1 - 1 / 2 ^ 54 \<le> y \<and> y \<le> 1 + 1 / 2 ^ 53"

text \<open>
  \<^verbatim>\<open>math.exp(x)\<close> raises \<^verbatim>\<open>OverflowError\<close> when its result is too large for a float; a
  result that underflows is \<open>0.0\<close> and raises nothing.
\<close>

definition py_exp :: "real \<Rightarrow> error + real" where
  "py_exp x = (if float_overflow (exp x) then Inl OverflowError else Inr (exp x))"

text \<open>
  \<^verbatim>\<open>dt = T / M\<close> (lines 29 and 68), a float divided by an integer: Python converts the
  integer to a float, which raises \<^verbatim>\<open>OverflowError\<close> when it is too large, and raises
  \<^verbatim>\<open>ZeroDivisionError\<close> when it is zero. A quotient that underflows is \<open>0.0\<close>, and then
  \<open>u\<close> is \<open>1.0\<close> in line 33.
\<close>

definition time_step :: "real \<Rightarrow> int \<Rightarrow> error + real" where
  "time_step T M =
     (if float_overflow (real_of_int M) then Inl OverflowError
      else if M = 0 then Inl ZeroDivisionError
      else if rounds_to_zero (T / real_of_int M) then Inr 0
      else Inr (T / real_of_int M))"

text \<open>
  Lines 33-35 and 73-75, the same text in both pricers:
  \<^verbatim>\<open>u = math.exp(sigma * math.sqrt(dt))\<close>, \<^verbatim>\<open>d = 1 / u\<close> and
  \<^verbatim>\<open>q = (math.exp(r * dt-Q * dt) - d) / (u - d)\<close>. \<^verbatim>\<open>math.sqrt\<close> raises
  \<^verbatim>\<open>ValueError\<close> on a negative number; \<^verbatim>\<open>1 / u\<close> raises \<^verbatim>\<open>ZeroDivisionError\<close> when
  \<open>u\<close> is \<open>0.0\<close>; the last division raises it when \<open>u - d\<close> is \<open>0.0\<close>, which for a
  positive float \<open>u\<close> and \<open>d = 1 / u\<close> is the case exactly when \<open>u\<close> is \<open>1.0\<close>. The
  result is \<open>(u, d, q)\<close>.
\<close>

definition branching :: "real \<Rightarrow> real \<Rightarrow> real \<Rightarrow> real \<Rightarrow> error + real \<times> real \<times> real" where
  "branching r sigma Q dt =
     (if dt < 0 then Inl ValueError
      else
        (case py_exp (sigma * sqrt dt) of
           Inl e \<Rightarrow> Inl e
         | Inr u \<Rightarrow>
             if rounds_to_zero u then Inl ZeroDivisionError
             else
               let d = 1 / u
               in (case py_exp (r * dt - Q * dt) of
                     Inl e \<Rightarrow> Inl e
                   | Inr g \<Rightarrow>
                       if rounds_to_one u then Inl ZeroDivisionError
                       else Inr (u, d, (g - d) / (u - d)))))"

text \<open>Lines 29-35 of the European pricer.\<close>

definition lattice_params :: "real \<Rightarrow> real \<Rightarrow> real \<Rightarrow> real \<Rightarrow> int \<Rightarrow> error + tree_params" where
  "lattice_params T r sigma Q M =
     (case time_step T M of
        Inl e \<Rightarrow> Inl e
      | Inr dt \<Rightarrow>
          (case py_exp (- r * dt) of
             Inl e \<Rightarrow> Inl e
           | Inr df \<Rightarrow>
               (case branching r sigma Q dt of
                  Inl e \<Rightarrow> Inl e
                | Inr (u, d, q) \<Rightarrow> Inr \<lparr>p_dt = dt, p_df = df, p_u = u, p_d = d, p_q = q\<rparr>)))"

text \<open>
  Lines 68-75 of the American pricer: the same, with \<^verbatim>\<open>inf = math.exp(r * dt)\<close> (line
  70) between \<open>df\<close> and \<open>u\<close>. The result is the parameters and \<open>inf\<close>.
\<close>

definition american_params ::
  "real \<Rightarrow> real \<Rightarrow> real \<Rightarrow> real \<Rightarrow> int \<Rightarrow> error + tree_params \<times> real" where
  "american_params T r sigma Q M =
     (case time_step T M of
        Inl e \<Rightarrow> Inl e
      | Inr dt \<Rightarrow>
          (case py_exp (- r * dt) of
             Inl e \<Rightarrow> Inl e
           | Inr df \<Rightarrow>
               (case py_exp (r * dt) of
                  Inl e \<Rightarrow> Inl e
                | Inr inf_r \<Rightarrow>
                    (case branching r sigma Q dt of
                       Inl e \<Rightarrow> Inl e
                     | Inr (u, d, q) \<Rightarrow>
                         Inr (\<lparr>p_dt = dt, p_df = df, p_u = u, p_d = d, p_q = q\<rparr>, inf_r)))))"

subsection \<open>The stock-price lattice (lines 38-50 and 78-86)\<close>

text \<open>
  \<^verbatim>\<open>mu = np.resize(np.arange(M + 1), (M + 1, M + 1))\<close>: the matrix of the column
  indices.
\<close>

definition power_matrix :: "int \<Rightarrow> error + int list list" where
  "power_matrix M = resize (arange (M + 1)) (M + 1)"

text \<open>
  \<^verbatim>\<open>md = np.transpose(mu)\<close>, \<^verbatim>\<open>u ** (mu - md)\<close>, \<^verbatim>\<open>d ** md\<close> and
  \<^verbatim>\<open>S = S0 * mu * md\<close>, on the full square.
\<close>

definition stock_prices :: "real \<Rightarrow> real \<Rightarrow> real \<Rightarrow> int list list \<Rightarrow> matrix" where
  "stock_prices S0 u d mu =
     (let md = np_transpose mu;
          mus = mat_map (\<lambda>k. u powi k) (mat_map2 (-) mu md);
          mds = mat_map (\<lambda>k. d powi k) md
      in mat_map2 (*) (mat_map (\<lambda>x. S0 * x) mus) mds)"

text \<open>
  \<^verbatim>\<open>np.maximum(S - K, 0)\<close> for \<^verbatim>\<open>'call'\<close>, \<^verbatim>\<open>np.maximum(K - S, 0)\<close> otherwise: a fresh
  array, over the full square.
\<close>

definition inner_values :: "string \<Rightarrow> real \<Rightarrow> matrix \<Rightarrow> matrix" where
  "inner_values otype K S =
     (if otype = ''call'' then mat_map (\<lambda>s. max (s - K) 0) S
      else mat_map (\<lambda>s. max (K - s) 0) S)"

subsection \<open>The European pricer (lines 7-63)\<close>

text \<open>
  One pass of the loop body, for the loop variable \<open>z\<close>, is one slice assignment,
  \<^verbatim>\<open>V[0:M-z, M-z-1] = (q * V[0:M-z, M-z] + (1-q) * V[1:M-z+1, M-z]) * df\<close>:
  its target is the array \<open>V\<close>, and its right-hand side is evaluated before anything is
  assigned.
\<close>

definition european_assignment :: "real \<Rightarrow> real \<Rightarrow> nat \<Rightarrow> nat \<Rightarrow> matrix \<Rightarrow> slice_assignment" where
  "european_assignment q df M z V =
     \<lparr>sa_target = Array_V, sa_first = 0, sa_stop = M - z, sa_col = M - z - 1,
      sa_vals =
        map (\<lambda>x. x * df)
          (map2 (+) (map (\<lambda>x. q * x) (get_col V 0 (M - z) (M - z)))
                    (map (\<lambda>x. (1 - q) * x) (get_col V 1 (M - z + 1) (M - z))))\<rparr>"

definition european_step :: "real \<Rightarrow> real \<Rightarrow> nat \<Rightarrow> nat \<Rightarrow> matrix \<Rightarrow> matrix" where
  "european_step q df M z V = assign V (european_assignment q df M z V)"

text \<open>\<^verbatim>\<open>for z in range(0, M)\<close>: no pass when \<open>M \<le> 0\<close>.\<close>

definition european_loop :: "real \<Rightarrow> real \<Rightarrow> int \<Rightarrow> matrix \<Rightarrow> matrix" where
  "european_loop q df M V = fold (european_step q df (nat M)) [0..<nat M] V"

definition CRR_european_option_value ::
  "real \<Rightarrow> real \<Rightarrow> real \<Rightarrow> real \<Rightarrow> real \<Rightarrow> string \<Rightarrow> real \<Rightarrow> int \<Rightarrow> error + matrix \<times> matrix" where
  "CRR_european_option_value S0 K T r sigma otype Q M =
     (case lattice_params T r sigma Q M of
        Inl e \<Rightarrow> Inl e
      | Inr p \<Rightarrow>
          (case power_matrix M of
             Inl e \<Rightarrow> Inl e
           | Inr mu \<Rightarrow>
               let S = stock_prices S0 (p_u p) (p_d p) mu;
                   V = inner_values otype K S
               in Inr (european_loop (p_q p) (p_df p) M V, S)))"

subsection \<open>The American pricer (lines 66-110)\<close>

text \<open>
  \<^verbatim>\<open>mes = S0 * inf ** mu\<close> and \<^verbatim>\<open>oreturn = mes - K\<close> for \<^verbatim>\<open>'call'\<close>,
  \<^verbatim>\<open>K - mes\<close> otherwise, where \<open>mu\<close> is the matrix of the column indices and
  \<open>inf_r\<close> the source's \<^verbatim>\<open>inf = math.exp(r * dt)\<close>.
\<close>

definition advance_exercise :: "string \<Rightarrow> real \<Rightarrow> real \<Rightarrow> real \<Rightarrow> int list list \<Rightarrow> matrix" where
  "advance_exercise otype S0 K inf_r mu =
     (let mes = mat_map (\<lambda>x. S0 * x) (mat_map (\<lambda>k. inf_r powi k) mu)
      in if otype = ''call'' then mat_map (\<lambda>e. e - K) mes else mat_map (\<lambda>e. K - e) mes)"

text \<open>
  One pass of the loop body:
  \<^verbatim>\<open>ovalue = (q * V[0:M-z, M-z] + (1-q) * V[1:M-z+1, M-z]) * df\<close>, then
  \<^verbatim>\<open>V[0:M-z, M-z-1] = np.maximum(ovalue, oreturn[0:M-z, M-z-1])\<close>.
\<close>

definition american_assignment ::
  "real \<Rightarrow> real \<Rightarrow> matrix \<Rightarrow> nat \<Rightarrow> nat \<Rightarrow> matrix \<Rightarrow> slice_assignment" where
  "american_assignment q df oreturn M z V =
     (let ovalue =
            map (\<lambda>x. x * df)
              (map2 (+) (map (\<lambda>x. q * x) (get_col V 0 (M - z) (M - z)))
                        (map (\<lambda>x. (1 - q) * x) (get_col V 1 (M - z + 1) (M - z))))
      in \<lparr>sa_target = Array_V, sa_first = 0, sa_stop = M - z, sa_col = M - z - 1,
          sa_vals = map2 max ovalue (get_col oreturn 0 (M - z) (M - z - 1))\<rparr>)"

definition american_step :: "real \<Rightarrow> real \<Rightarrow> matrix \<Rightarrow> nat \<Rightarrow> nat \<Rightarrow> matrix \<Rightarrow> matrix" where
  "american_step q df oreturn M z V = assign V (american_assignment q df oreturn M z V)"

definition american_loop :: "real \<Rightarrow> real \<Rightarrow> matrix \<Rightarrow> int \<Rightarrow> matrix \<Rightarrow> matrix" where
  "american_loop q df oreturn M V = fold (american_step q df oreturn (nat M)) [0..<nat M] V"

definition CRR_american_option_value ::
  "real \<Rightarrow> real \<Rightarrow> real \<Rightarrow> real \<Rightarrow> real \<Rightarrow> string \<Rightarrow> real \<Rightarrow> int \<Rightarrow> error + matrix \<times> matrix" where
  "CRR_american_option_value S0 K T r sigma otype Q M =
     (case american_params T r sigma Q M of
        Inl e \<Rightarrow> Inl e
      | Inr (p, inf_r) \<Rightarrow>
          (case power_matrix M of
             Inl e \<Rightarrow> Inl e
           | Inr mu \<Rightarrow>
               let S = stock_prices S0 (p_u p) (p_d p) mu;
                   oreturn = advance_exercise otype S0 K inf_r mu;
                   V = inner_values otype K S
               in Inr (american_loop (p_q p) (p_df p) oreturn M V, S)))"

subsection \<open>The sensitivities read off a lattice (lines 112-124)\<close>

text \<open>
  The operands are numpy scalars, so a division by zero yields \<^verbatim>\<open>inf\<close> or \<^verbatim>\<open>nan\<close> with
  a warning and raises nothing: the result \<open>None\<close> stands for such a non-finite value.
  The subscripts are evaluated from left to right; each can raise \<^verbatim>\<open>IndexError\<close>.
\<close>

definition np_divide :: "real \<Rightarrow> real \<Rightarrow> real option" where
  "np_divide a b = (if b = 0 then None else Some (a / b))"

definition calculate_delta :: "matrix \<Rightarrow> matrix \<Rightarrow> error + real option" where
  "calculate_delta C S =
     (case cell C 0 1 of Inl e \<Rightarrow> Inl e | Inr c01 \<Rightarrow>
     (case cell C 1 1 of Inl e \<Rightarrow> Inl e | Inr c11 \<Rightarrow>
     (case cell S 0 1 of Inl e \<Rightarrow> Inl e | Inr s01 \<Rightarrow>
     (case cell S 1 1 of Inl e \<Rightarrow> Inl e | Inr s11 \<Rightarrow>
        Inr (np_divide (c01 - c11) (s01 - s11))))))"

definition calculate_gamma :: "matrix \<Rightarrow> matrix \<Rightarrow> error + real option" where
  "calculate_gamma C S =
     (case cell C 0 2 of Inl e \<Rightarrow> Inl e | Inr c02 \<Rightarrow>
     (case cell C 1 2 of Inl e \<Rightarrow> Inl e | Inr c12 \<Rightarrow>
     (case cell S 0 2 of Inl e \<Rightarrow> Inl e | Inr s02 \<Rightarrow>
     (case cell S 1 2 of Inl e \<Rightarrow> Inl e | Inr s12 \<Rightarrow>
     (case cell C 2 2 of Inl e \<Rightarrow> Inl e | Inr c22 \<Rightarrow>
     (case cell S 2 2 of Inl e \<Rightarrow> Inl e | Inr s22 \<Rightarrow>
        Inr (case np_divide (c02 - c12) (s02 - s12) of None \<Rightarrow> None | Some up \<Rightarrow>
            (case np_divide (c12 - c22) (s12 - s22) of None \<Rightarrow> None | Some down \<Rightarrow>
               np_divide (up - down) (0.5 * (s02 - s22))))))))))"

definition calculate_theta :: "matrix \<Rightarrow> real \<Rightarrow> error + real option" where
  "calculate_theta C dt =
     (case cell C 1 2 of Inl e \<Rightarrow> Inl e | Inr c12 \<Rightarrow>
     (case cell C 0 0 of Inl e \<Rightarrow> Inl e | Inr c00 \<Rightarrow>
        Inr (np_divide (c12 - c00) (2 * dt))))"

subsection \<open>The backward induction with a log of its assignments\<close>

text \<open>
  The loops once more, on the two arrays a pricer returns and a log: a pass carries out
  the very assignment the loop body is defined by, \<open>european_assignment\<close> or
  \<open>american_assignment\<close>, on the array that assignment targets, and appends the cells it
  assigns to the log. \<open>V\<close> and \<open>S\<close> are different arrays: \<^verbatim>\<open>np.maximum\<close> returned a
  fresh one.
\<close>

type_synonym arrays = "array_id \<Rightarrow> matrix"

definition arrays_of :: "matrix \<Rightarrow> matrix \<Rightarrow> arrays" where
  "arrays_of V S = (\<lambda>a. case a of Array_V \<Rightarrow> V | Array_S \<Rightarrow> S)"

definition execute ::
  "slice_assignment \<Rightarrow> arrays \<times> (array_id \<times> nat \<times> nat) list
     \<Rightarrow> arrays \<times> (array_id \<times> nat \<times> nat) list" where
  "execute g st =
     (case st of (A, ws) \<Rightarrow>
        (A (sa_target g := assign (A (sa_target g)) g), ws @ assigned_cells g))"

definition european_pass ::
  "real \<Rightarrow> real \<Rightarrow> nat \<Rightarrow> nat \<Rightarrow> arrays \<times> (array_id \<times> nat \<times> nat) list
     \<Rightarrow> arrays \<times> (array_id \<times> nat \<times> nat) list" where
  "european_pass q df M z st = execute (european_assignment q df M z (fst st Array_V)) st"

definition european_trace ::
  "real \<Rightarrow> real \<Rightarrow> int \<Rightarrow> arrays \<Rightarrow> arrays \<times> (array_id \<times> nat \<times> nat) list" where
  "european_trace q df M A = fold (european_pass q df (nat M)) [0..<nat M] (A, [])"

definition american_pass ::
  "real \<Rightarrow> real \<Rightarrow> matrix \<Rightarrow> nat \<Rightarrow> nat \<Rightarrow> arrays \<times> (array_id \<times> nat \<times> nat) list
     \<Rightarrow> arrays \<times> (array_id \<times> nat \<times> nat) list" where
  "american_pass q df oreturn M z st =
     execute (american_assignment q df oreturn M z (fst st Array_V)) st"

definition american_trace ::
  "real \<Rightarrow> real \<Rightarrow> matrix \<Rightarrow> int \<Rightarrow> arrays \<Rightarrow> arrays \<times> (array_id \<times> nat \<times> nat) list" where
  "american_trace q df oreturn M A =
     fold (american_pass q df oreturn (nat M)) [0..<nat M] (A, [])"

subsection \<open>Auxiliary definitions for the proofs\<close>

text \<open>The value of \<open>power_matrix\<close> in closed form: entry \<open>(i, j)\<close> is \<open>j\<close>.\<close>

definition column_indices :: "nat \<Rightarrow> int list list" where
  "column_indices n = map (\<lambda>i. map (\<lambda>j. int j) [0..<n]) [0..<n]"

text \<open>The cells assigned by the first \<open>k\<close> passes of a loop over \<open>m\<close> steps.\<close>

definition backward_writes :: "nat \<Rightarrow> nat \<Rightarrow> (array_id \<times> nat \<times> nat) list" where
  "backward_writes m k =
     concat (map (\<lambda>z. map (\<lambda>i. (Array_V, i, m - z - 1)) [0..<m - z]) [0..<k])"

text \<open>The value of \<open>lattice_params\<close> in closed form, where it raises nothing.\<close>

definition tree :: "real \<Rightarrow> real \<Rightarrow> real \<Rightarrow> real \<Rightarrow> int \<Rightarrow> tree_params" where
  "tree T r sigma Q M =
     \<lparr>p_dt = T / real_of_int M,
      p_df = exp (- r * (T / real_of_int M)),
      p_u = exp (sigma * sqrt (T / real_of_int M)),
      p_d = 1 / exp (sigma * sqrt (T / real_of_int M)),
      p_q = (exp (r * (T / real_of_int M) - Q * (T / real_of_int M))
               - 1 / exp (sigma * sqrt (T / real_of_int M)))
            / (exp (sigma * sqrt (T / real_of_int M))
               - 1 / exp (sigma * sqrt (T / real_of_int M)))\<rparr>"

section \<open>Arrays and the lattice construction\<close>

lemma squareI: "length A = n \<Longrightarrow> (\<And>i. i < n \<Longrightarrow> length (A ! i) = n) \<Longrightarrow> square n A"
  unfolding square_def by (auto simp: in_set_conv_nth)

lemma square_length: "square n A \<Longrightarrow> length A = n"
  by (simp add: square_def)

lemma square_row: "square n A \<Longrightarrow> i < n \<Longrightarrow> length (A ! i) = n"
  by (simp add: square_def)

lemma power_matrix_neg: "M < -1 \<Longrightarrow> power_matrix M = Inl ValueError"
  by (simp add: power_matrix_def resize_def)

lemma power_matrix_ok:
  assumes "-1 \<le> M"
  shows "power_matrix M = Inr (column_indices (nat (M + 1)))"
proof -
  have "(if arange (M + 1) = [] then 0 else arange (M + 1) ! ((i * nat (M + 1) + j) mod length (arange (M + 1)))) = int j"
    if "j < nat (M + 1)" for i j
    using that by (auto simp: arange_def)
  then show ?thesis
    using assms by (simp add: power_matrix_def resize_def column_indices_def)
qed

lemma square_column_indices: "square n (column_indices n)"
  by (rule squareI) (simp_all add: column_indices_def)

lemma column_indices_nth: "i < n \<Longrightarrow> j < n \<Longrightarrow> column_indices n ! i ! j = int j"
  by (simp add: column_indices_def)

lemma np_transpose_nth:
  assumes "square n A" "i < n" "j < n"
  shows "np_transpose A ! i ! j = A ! j ! i"
proof -
  obtain r rs where A: "A = r # rs" using assms by (cases A) (auto simp: square_def)
  have len: "length r = n" "length A = n" using assms A by (auto simp: square_def)
  have "np_transpose A = map (\<lambda>j. map (\<lambda>row. row ! j) A) [0..<n]"
    using len by (simp add: np_transpose_def A)
  then show ?thesis using assms(2,3) len by simp
qed

lemma square_np_transpose: "square n A \<Longrightarrow> square n (np_transpose A)"
  by (cases A) (auto simp: square_def np_transpose_def)

lemma square_mat_map: "square n A \<Longrightarrow> square n (mat_map f A)"
  by (auto simp: square_def mat_map_def)

lemma mat_map_nth: "square n A \<Longrightarrow> i < n \<Longrightarrow> j < n \<Longrightarrow> mat_map f A ! i ! j = f (A ! i ! j)"
  by (simp add: square_def mat_map_def)

lemma square_mat_map2: "square n A \<Longrightarrow> square n B \<Longrightarrow> square n (mat_map2 f A B)"
  by (rule squareI) (simp_all add: square_def mat_map2_def)

lemma mat_map2_nth:
  "square n A \<Longrightarrow> square n B \<Longrightarrow> i < n \<Longrightarrow> j < n \<Longrightarrow> mat_map2 f A B ! i ! j = f (A ! i ! j) (B ! i ! j)"
  by (simp add: square_def mat_map2_def)

lemma square_stock_prices: "square n mu \<Longrightarrow> square n (stock_prices S0 u d mu)"
  by (simp add: stock_prices_def Let_def square_mat_map square_mat_map2 square_np_transpose)

lemma stock_prices_nth:
  assumes "i < n" "j < n"
  shows "stock_prices S0 u d (column_indices n) ! i ! j = S0 * u powi (int j - int i) * d powi (int i)"
proof -
  let ?mu = "column_indices n"
  let ?md = "np_transpose ?mu"
  have mu: "square n ?mu" by (rule square_column_indices)
  have md: "square n ?md" by (rule square_np_transpose[OF mu])
  have md_nth: "?md ! i ! j = int i"
    using assms by (simp add: np_transpose_nth[OF mu] column_indices_nth)
  have diff: "square n (mat_map2 (-) ?mu ?md)" by (rule square_mat_map2[OF mu md])
  have diff_nth: "mat_map2 (-) ?mu ?md ! i ! j = int j - int i"
    using assms by (simp add: mat_map2_nth[OF mu md] md_nth column_indices_nth)
  let ?mus = "mat_map (\<lambda>k. u powi k) (mat_map2 (-) ?mu ?md)"
  let ?mds = "mat_map (\<lambda>k. d powi k) ?md"
  have mus: "square n ?mus" by (rule square_mat_map[OF diff])
  have mds: "square n ?mds" by (rule square_mat_map[OF md])
  have mus_nth: "?mus ! i ! j = u powi (int j - int i)"
    using assms by (simp add: mat_map_nth[OF diff] diff_nth)
  have mds_nth: "?mds ! i ! j = d powi (int i)"
    using assms by (simp add: mat_map_nth[OF md] md_nth)
  have s0: "square n (mat_map (\<lambda>x. S0 * x) ?mus)" by (rule square_mat_map[OF mus])
  have "mat_map2 (*) (mat_map (\<lambda>x. S0 * x) ?mus) ?mds ! i ! j = S0 * u powi (int j - int i) * d powi (int i)"
    using assms by (simp add: mat_map2_nth[OF s0 mds] mat_map_nth[OF mus] mus_nth mds_nth)
  then show ?thesis by (simp add: stock_prices_def Let_def)
qed

lemma square_inner_values: "square n S \<Longrightarrow> square n (inner_values otype K S)"
  by (simp add: inner_values_def square_mat_map)

lemma inner_values_nth:
  "square n S \<Longrightarrow> i < n \<Longrightarrow> j < n \<Longrightarrow>
   inner_values otype K S ! i ! j =
     (if otype = ''call'' then max (S ! i ! j - K) 0 else max (K - S ! i ! j) 0)"
  by (simp add: inner_values_def mat_map_nth)

lemma square_advance_exercise: "square n mu \<Longrightarrow> square n (advance_exercise otype S0 K inf_r mu)"
  by (simp add: advance_exercise_def Let_def square_mat_map)

lemma advance_exercise_nth:
  assumes "i < n" "j < n"
  shows "advance_exercise otype S0 K inf_r (column_indices n) ! i ! j =
     (if otype = ''call'' then S0 * inf_r ^ j - K else K - S0 * inf_r ^ j)"
proof -
  let ?mu = "column_indices n"
  have mu: "square n ?mu" by (rule square_column_indices)
  have p: "square n (mat_map (\<lambda>k. inf_r powi k) ?mu)" by (rule square_mat_map[OF mu])
  have mes: "square n (mat_map (\<lambda>x. S0 * x) (mat_map (\<lambda>k. inf_r powi k) ?mu))"
    by (rule square_mat_map[OF p])
  show ?thesis
    using assms
    by (simp add: advance_exercise_def Let_def mat_map_nth[OF mes] mat_map_nth[OF p]
        mat_map_nth[OF mu] column_indices_nth)
qed

lemma get_col_nth:
  "b \<le> length V \<Longrightarrow> i < b - a \<Longrightarrow> get_col V a b c ! i = V ! (a + i) ! c"
  by (simp add: get_col_def)

lemma length_get_col: "b \<le> length V \<Longrightarrow> length (get_col V a b c) = b - a"
  by (simp add: get_col_def)

lemma length_set_col: "length (set_col V a b c vals) = length V"
  by (simp add: set_col_def)

lemma set_col_row_length: "i < length V \<Longrightarrow> length (set_col V a b c vals ! i) = length (V ! i)"
  by (simp add: set_col_def)

lemma square_set_col: "square n V \<Longrightarrow> square n (set_col V a b c vals)"
  by (rule squareI) (simp_all add: square_def length_set_col set_col_row_length)

lemma set_col_nth:
  "i < length V \<Longrightarrow> j < length (V ! i) \<Longrightarrow>
   set_col V a b c vals ! i ! j = (if a \<le> i \<and> i < b \<and> j = c then vals ! (i - a) else V ! i ! j)"
  by (simp add: set_col_def)

section \<open>One pass of the backward induction\<close>

lemma map2_nth: "i < length xs \<Longrightarrow> i < length ys \<Longrightarrow> map2 f xs ys ! i = f (xs ! i) (ys ! i)"
  by simp

lemma expectation_length:
  assumes "square (Suc M) V" "z < M"
  shows "length (map (\<lambda>x. x * df)
          (map2 (+) (map (\<lambda>x. q * x) (get_col V 0 (M - z) (M - z)))
                    (map (\<lambda>x. (1 - q) * x) (get_col V 1 (M - z + 1) (M - z))))) = M - z"
proof -
  have len: "length V = Suc M" using assms(1) by (simp add: square_def)
  have l1: "length (get_col V 0 (M - z) (M - z)) = M - z"
    using len by (simp add: length_get_col)
  have l2: "length (get_col V 1 (M - z + 1) (M - z)) = M - z"
    using len assms(2) by (simp add: length_get_col)
  show ?thesis using l1 l2 by simp
qed

lemma expectation_nth:
  assumes "square (Suc M) V" "z < M" "i < M - z"
  shows "map (\<lambda>x. x * df)
          (map2 (+) (map (\<lambda>x. q * x) (get_col V 0 (M - z) (M - z)))
                    (map (\<lambda>x. (1 - q) * x) (get_col V 1 (M - z + 1) (M - z)))) ! i
         = (q * V ! i ! (M - z) + (1 - q) * V ! (i + 1) ! (M - z)) * df"
proof -
  have len: "length V = Suc M" using assms(1) by (simp add: square_def)
  have l1: "length (get_col V 0 (M - z) (M - z)) = M - z"
    using len by (simp add: length_get_col)
  have l2: "length (get_col V 1 (M - z + 1) (M - z)) = M - z"
    using len assms(2) by (simp add: length_get_col)
  have n1: "get_col V 0 (M - z) (M - z) ! i = V ! i ! (M - z)"
    using len assms(3) by (simp add: get_col_nth)
  have n2: "get_col V 1 (M - z + 1) (M - z) ! i = V ! (i + 1) ! (M - z)"
    using len assms(2,3) by (simp add: get_col_nth)
  show ?thesis
    using assms(3) l1 l2 n1 n2 by simp
qed

lemma square_european_step: "square n V \<Longrightarrow> square n (european_step q df M z V)"
  by (simp add: european_step_def assign_def square_set_col)

lemma european_step_nth:
  assumes "square (Suc M) V" "z < M" "i \<le> M" "j \<le> M"
  shows "european_step q df M z V ! i ! j =
           (if j = M - z - 1 \<and> i < M - z
            then (q * V ! i ! (j + 1) + (1 - q) * V ! (i + 1) ! (j + 1)) * df
            else V ! i ! j)"
proof -
  have len: "i < length V" "j < length (V ! i)"
    using assms by (simp_all add: square_def)
  have c: "M - z - 1 + 1 = M - z" using assms(2) by simp
  have e: "map (\<lambda>x. x * df)
          (map2 (+) (map (\<lambda>x. q * x) (get_col V 0 (M - z) (M - z)))
                    (map (\<lambda>x. (1 - q) * x) (get_col V 1 (M - z + 1) (M - z)))) ! i
         = (q * V ! i ! (M - z) + (1 - q) * V ! (i + 1) ! (M - z)) * df" if "i < M - z"
    using expectation_nth[OF assms(1,2) that] .
  show ?thesis
  proof (cases "j = M - z - 1 \<and> i < M - z")
    case True
    then show ?thesis
      unfolding european_step_def assign_def european_assignment_def using set_col_nth[OF len] e c by simp
  next
    case False
    then show ?thesis
      unfolding european_step_def assign_def european_assignment_def using set_col_nth[OF len] by auto
  qed
qed

lemma square_american_step: "square n V \<Longrightarrow> square n (american_step q df oreturn M z V)"
  by (simp add: american_step_def assign_def square_set_col)

lemma american_step_nth:
  assumes "square (Suc M) V" "square (Suc M) oreturn" "z < M" "i \<le> M" "j \<le> M"
  shows "american_step q df oreturn M z V ! i ! j =
           (if j = M - z - 1 \<and> i < M - z
            then max ((q * V ! i ! (j + 1) + (1 - q) * V ! (i + 1) ! (j + 1)) * df) (oreturn ! i ! j)
            else V ! i ! j)"
proof -
  have len: "i < length V" "j < length (V ! i)"
    using assms by (simp_all add: square_def)
  have c: "M - z - 1 + 1 = M - z" using assms(3) by simp
  have lo: "length oreturn = Suc M" using assms(2) by (simp add: square_def)
  have o: "get_col oreturn 0 (M - z) (M - z - 1) ! i = oreturn ! i ! (M - z - 1)" if "i < M - z"
    using that lo by (simp add: get_col_nth)
  have ol: "length (get_col oreturn 0 (M - z) (M - z - 1)) = M - z"
    using lo by (simp add: length_get_col)
  have e: "map (\<lambda>x. x * df)
          (map2 (+) (map (\<lambda>x. q * x) (get_col V 0 (M - z) (M - z)))
                    (map (\<lambda>x. (1 - q) * x) (get_col V 1 (M - z + 1) (M - z)))) ! i
         = (q * V ! i ! (M - z) + (1 - q) * V ! (i + 1) ! (M - z)) * df" if "i < M - z"
    using expectation_nth[OF assms(1,3) that] .
  have el: "length (map (\<lambda>x. x * df)
          (map2 (+) (map (\<lambda>x. q * x) (get_col V 0 (M - z) (M - z)))
                    (map (\<lambda>x. (1 - q) * x) (get_col V 1 (M - z + 1) (M - z))))) = M - z"
    by (rule expectation_length[OF assms(1,3)])
  show ?thesis
  proof (cases "j = M - z - 1 \<and> i < M - z")
    case True
    then have "map2 max (map (\<lambda>x. x * df)
          (map2 (+) (map (\<lambda>x. q * x) (get_col V 0 (M - z) (M - z)))
                    (map (\<lambda>x. (1 - q) * x) (get_col V 1 (M - z + 1) (M - z)))))
            (get_col oreturn 0 (M - z) (M - z - 1)) ! i
          = max ((q * V ! i ! (M - z) + (1 - q) * V ! (i + 1) ! (M - z)) * df) (oreturn ! i ! (M - z - 1))"
      using e o el ol by (simp only: map2_nth)
    then show ?thesis
      unfolding american_step_def assign_def american_assignment_def Let_def using set_col_nth[OF len] True c by simp
  next
    case False
    then show ?thesis
      unfolding american_step_def assign_def american_assignment_def Let_def using set_col_nth[OF len] by auto
  qed
qed

lemma backward_fold:
  fixes st :: "nat \<Rightarrow> matrix \<Rightarrow> matrix" and g :: "nat \<Rightarrow> nat \<Rightarrow> real \<Rightarrow> real \<Rightarrow> real"
  assumes sq: "\<And>z V. square (Suc M) V \<Longrightarrow> square (Suc M) (st z V)"
    and step: "\<And>z V i j. square (Suc M) V \<Longrightarrow> z < M \<Longrightarrow> i \<le> M \<Longrightarrow> j \<le> M \<Longrightarrow>
                 st z V ! i ! j =
                   (if j = M - z - 1 \<and> i < M - z
                    then g i j (V ! i ! (j + 1)) (V ! (i + 1) ! (j + 1)) else V ! i ! j)"
    and V0: "square (Suc M) V0"
    and k: "k \<le> M"
  shows "square (Suc M) (fold st [0..<k] V0) \<and>
         (\<forall>i\<le>M. \<forall>j\<le>M. fold st [0..<k] V0 ! i ! j =
            (if M - k \<le> j \<and> j < M \<and> i \<le> j
             then g i j (fold st [0..<k] V0 ! i ! (j + 1)) (fold st [0..<k] V0 ! (i + 1) ! (j + 1))
             else V0 ! i ! j))"
  using k
proof (induction k)
  case 0
  then show ?case using V0 by simp
next
  case (Suc k)
  let ?W = "fold st [0..<k] V0"
  have kM: "k < M" using Suc.prems by simp
  have W: "square (Suc M) ?W" using Suc by simp
  have IH: "?W ! i ! j =
            (if M - k \<le> j \<and> j < M \<and> i \<le> j
             then g i j (?W ! i ! (j + 1)) (?W ! (i + 1) ! (j + 1))
             else V0 ! i ! j)" if "i \<le> M" "j \<le> M" for i j
    using Suc that by simp
  have f: "fold st [0..<Suc k] V0 = st k ?W" by simp
  have keep: "st k ?W ! i ! j = ?W ! i ! j" if "i \<le> M" "j \<le> M" "M - k \<le> j" for i j
    using step[OF W kM that(1,2)] that(3) kM by auto
  have "st k ?W ! i ! j =
            (if M - Suc k \<le> j \<and> j < M \<and> i \<le> j
             then g i j (st k ?W ! i ! (j + 1)) (st k ?W ! (i + 1) ! (j + 1))
             else V0 ! i ! j)" if ij: "i \<le> M" "j \<le> M" for i j
  proof (cases "j = M - k - 1 \<and> i < M - k")
    case True
    then have "st k ?W ! i ! j = g i j (?W ! i ! (j + 1)) (?W ! (i + 1) ! (j + 1))"
      using step[OF W kM ij] by simp
    moreover have "st k ?W ! i ! (j + 1) = ?W ! i ! (j + 1)"
      using True kM ij by (intro keep) auto
    moreover have "st k ?W ! (i + 1) ! (j + 1) = ?W ! (i + 1) ! (j + 1)"
      using True kM ij by (intro keep) auto
    ultimately show ?thesis using True kM by auto
  next
    case False
    then have eq: "st k ?W ! i ! j = ?W ! i ! j"
      using step[OF W kM ij] by (auto split: if_splits)
    show ?thesis
    proof (cases "M - k \<le> j \<and> j < M \<and> i \<le> j")
      case True
      have "st k ?W ! i ! (j + 1) = ?W ! i ! (j + 1)"
        using True ij by (intro keep) auto
      moreover have "st k ?W ! (i + 1) ! (j + 1) = ?W ! (i + 1) ! (j + 1)"
        using True ij by (intro keep) auto
      ultimately show ?thesis using eq IH[OF ij] True by auto
    next
      case F2: False
      then have "?W ! i ! j = V0 ! i ! j" using IH[OF ij] by (auto split: if_splits)
      moreover have "\<not> (M - Suc k \<le> j \<and> j < M \<and> i \<le> j)"
        using False F2 kM by auto
      ultimately show ?thesis using eq by auto
    qed
  qed
  then show ?case unfolding f using sq[OF W] by blast
qed

section \<open>The tree parameters and the pricers' results\<close>

lemma py_exp_InrD: "py_exp x = Inr y \<Longrightarrow> y = exp x"
  by (simp add: py_exp_def split: if_splits)


lemma py_exp_ok: "\<not> float_overflow (exp x) \<Longrightarrow> py_exp x = Inr (exp x)"
  by (simp add: py_exp_def)

lemma time_step_zero: "time_step T 0 = Inl ZeroDivisionError"
  by (simp add: time_step_def float_overflow_def)

lemma time_step_InrD:
  "time_step T M = Inr dt \<Longrightarrow> M \<noteq> 0 \<and> (dt = T / real_of_int M \<or> dt = 0)"
  by (auto simp: time_step_def split: if_splits)


lemma time_step_ok:
  "M \<noteq> 0 \<Longrightarrow> \<not> float_overflow (real_of_int M) \<Longrightarrow> \<not> rounds_to_zero (T / real_of_int M) \<Longrightarrow>
   time_step T M = Inr (T / real_of_int M)"
  by (simp add: time_step_def)

lemma branching_InrD:
  assumes "branching r sigma Q dt = Inr (u, d, q)"
  shows "0 \<le> dt \<and> u = exp (sigma * sqrt dt) \<and> d = 1 / exp (sigma * sqrt dt) \<and>
         q = (exp (r * dt - Q * dt) - 1 / exp (sigma * sqrt dt))
               / (exp (sigma * sqrt dt) - 1 / exp (sigma * sqrt dt)) \<and>
         \<not> rounds_to_one (exp (sigma * sqrt dt))"
  using assms unfolding branching_def Let_def
  by (auto split: if_splits sum.splits dest!: py_exp_InrD)


lemma branching_ok:
  assumes "0 \<le> dt"
    and "\<not> float_overflow (exp (sigma * sqrt dt))"
    and "\<not> rounds_to_zero (exp (sigma * sqrt dt))"
    and "\<not> float_overflow (exp (r * dt - Q * dt))"
    and "\<not> rounds_to_one (exp (sigma * sqrt dt))"
  shows "branching r sigma Q dt =
           Inr (exp (sigma * sqrt dt), 1 / exp (sigma * sqrt dt),
                (exp (r * dt - Q * dt) - 1 / exp (sigma * sqrt dt))
                  / (exp (sigma * sqrt dt) - 1 / exp (sigma * sqrt dt)))"
  using assms unfolding branching_def Let_def by (simp add: py_exp_ok not_less)

lemma rounds_to_one_1: "rounds_to_one 1"
  by (simp add: rounds_to_one_def)

lemma lattice_params_zero: "lattice_params T r sigma Q 0 = Inl ZeroDivisionError"
  by (simp add: lattice_params_def time_step_zero)

lemma time_step_branching:
  assumes "time_step T M = Inr dt" "branching r sigma Q dt = Inr (u, d, q)"
  shows "M \<noteq> 0 \<and> dt = T / real_of_int M"
proof -
  have "dt \<noteq> 0 \<or> dt = T / real_of_int M"
    using branching_InrD[OF assms(2)] time_step_InrD[OF assms(1)]
    by (auto simp: rounds_to_one_1)
  then show ?thesis using time_step_InrD[OF assms(1)] by auto
qed

lemma lattice_params_cases:
  assumes "lattice_params T r sigma Q M = Inr p"
  obtains dt df u d q where "time_step T M = Inr dt" "py_exp (- r * dt) = Inr df"
    "branching r sigma Q dt = Inr (u, d, q)"
    "p = \<lparr>p_dt = dt, p_df = df, p_u = u, p_d = d, p_q = q\<rparr>"
  using assms unfolding lattice_params_def
  by (auto split: sum.splits prod.splits)

lemma lattice_params_tree:
  assumes "lattice_params T r sigma Q M = Inr p"
  shows "p = tree T r sigma Q M"
proof -
  obtain dt df u d q where ts: "time_step T M = Inr dt" and df: "py_exp (- r * dt) = Inr df"
    and b: "branching r sigma Q dt = Inr (u, d, q)"
    and p: "p = \<lparr>p_dt = dt, p_df = df, p_u = u, p_d = d, p_q = q\<rparr>"
    using assms by (rule lattice_params_cases)
  have dt: "dt = T / real_of_int M" using time_step_branching[OF ts b] by simp
  show ?thesis
    unfolding p tree_def dt[symmetric]
    using branching_InrD[OF b] py_exp_InrD[OF df] by simp
qed

lemma lattice_params_InrD:
  assumes "lattice_params T r sigma Q M = Inr p"
  shows "M \<noteq> 0 \<and> 0 \<le> T / real_of_int M \<and>
         \<not> rounds_to_one (exp (sigma * sqrt (T / real_of_int M)))"
proof -
  obtain dt df u d q where ts: "time_step T M = Inr dt"
    and b: "branching r sigma Q dt = Inr (u, d, q)"
    using assms by (rule lattice_params_cases)
  have dt: "dt = T / real_of_int M" and M: "M \<noteq> 0" using time_step_branching[OF ts b] by simp_all
  show ?thesis using branching_InrD[OF b] M unfolding dt by simp
qed


lemma lattice_params_ok:
  assumes "M \<noteq> 0" "\<not> float_overflow (real_of_int M)" "\<not> rounds_to_zero (T / real_of_int M)"
    and "0 \<le> T / real_of_int M"
    and "\<not> float_overflow (exp (- r * (T / real_of_int M)))"
    and "\<not> float_overflow (exp (sigma * sqrt (T / real_of_int M)))"
    and "\<not> rounds_to_zero (exp (sigma * sqrt (T / real_of_int M)))"
    and "\<not> float_overflow (exp (r * (T / real_of_int M) - Q * (T / real_of_int M)))"
    and "\<not> rounds_to_one (exp (sigma * sqrt (T / real_of_int M)))"
  shows "lattice_params T r sigma Q M = Inr (tree T r sigma Q M)"
  by (simp only: lattice_params_def tree_def time_step_ok[OF assms(1,2,3)] py_exp_ok[OF assms(5)]
      branching_ok[OF assms(4,6,7,8,9)] sum.case prod.case)

lemma american_params_InrD:
  assumes "american_params T r sigma Q M = Inr (p, g)"
  shows "lattice_params T r sigma Q M = Inr p \<and> g = exp (r * p_dt p)"
proof -
  obtain dt df g' u d q where ts: "time_step T M = Inr dt" and df: "py_exp (- r * dt) = Inr df"
    and g': "py_exp (r * dt) = Inr g'" and b: "branching r sigma Q dt = Inr (u, d, q)"
    and p: "p = \<lparr>p_dt = dt, p_df = df, p_u = u, p_d = d, p_q = q\<rparr>" and g: "g = g'"
    using assms unfolding american_params_def
    by (auto split: sum.splits prod.splits)
  have "lattice_params T r sigma Q M = Inr p"
    unfolding lattice_params_def by (simp only: ts df b p sum.case prod.case)
  moreover have "g = exp (r * p_dt p)" using py_exp_InrD[OF g'] unfolding g p by simp
  ultimately show ?thesis by simp
qed



lemma european_unfold:
  assumes "lattice_params T r sigma Q M = Inr p" "-1 \<le> M"
  shows "CRR_european_option_value S0 K T r sigma otype Q M =
           Inr (european_loop (p_q p) (p_df p) M
                  (inner_values otype K (stock_prices S0 (p_u p) (p_d p) (column_indices (nat (M + 1))))),
                stock_prices S0 (p_u p) (p_d p) (column_indices (nat (M + 1))))"
  using assms by (simp add: CRR_european_option_value_def power_matrix_ok Let_def)

lemma american_unfold:
  assumes "american_params T r sigma Q M = Inr (p, g)" "-1 \<le> M"
  shows "CRR_american_option_value S0 K T r sigma otype Q M =
           Inr (american_loop (p_q p) (p_df p)
                  (advance_exercise otype S0 K g (column_indices (nat (M + 1)))) M
                  (inner_values otype K (stock_prices S0 (p_u p) (p_d p) (column_indices (nat (M + 1))))),
                stock_prices S0 (p_u p) (p_d p) (column_indices (nat (M + 1))))"
  using assms by (simp add: CRR_american_option_value_def power_matrix_ok Let_def)

lemma european_error:
  "lattice_params T r sigma Q M = Inl e \<Longrightarrow> CRR_european_option_value S0 K T r sigma otype Q M = Inl e"
  by (simp add: CRR_european_option_value_def)

lemma american_error:
  "american_params T r sigma Q M = Inl e \<Longrightarrow> CRR_american_option_value S0 K T r sigma otype Q M = Inl e"
  by (simp add: CRR_american_option_value_def)

lemma european_resize_error:
  "lattice_params T r sigma Q M = Inr p \<Longrightarrow> M < -1 \<Longrightarrow>
   CRR_european_option_value S0 K T r sigma otype Q M = Inl ValueError"
  by (simp add: CRR_european_option_value_def power_matrix_neg)

lemma american_resize_error:
  "american_params T r sigma Q M = Inr (p, g) \<Longrightarrow> M < -1 \<Longrightarrow>
   CRR_american_option_value S0 K T r sigma otype Q M = Inl ValueError"
  by (simp add: CRR_american_option_value_def power_matrix_neg)

lemma european_fold_cells:
  assumes "square (Suc m) V0"
  shows "square (Suc m) (fold (european_step q df m) [0..<m] V0) \<and>
         (\<forall>i\<le>m. \<forall>j\<le>m. fold (european_step q df m) [0..<m] V0 ! i ! j =
            (if m - m \<le> j \<and> j < m \<and> i \<le> j
             then (q * (fold (european_step q df m) [0..<m] V0 ! i ! (j + 1))
                   + (1 - q) * (fold (european_step q df m) [0..<m] V0 ! (i + 1) ! (j + 1))) * df
             else V0 ! i ! j))"
proof -
  have sq: "\<And>z V. square (Suc m) V \<Longrightarrow> square (Suc m) (european_step q df m z V)"
    by (rule square_european_step)
  have st: "\<And>z V i j. square (Suc m) V \<Longrightarrow> z < m \<Longrightarrow> i \<le> m \<Longrightarrow> j \<le> m \<Longrightarrow>
                 european_step q df m z V ! i ! j =
                   (if j = m - z - 1 \<and> i < m - z
                    then (\<lambda>i j a b. (q * a + (1 - q) * b) * df) i j (V ! i ! (j + 1)) (V ! (i + 1) ! (j + 1))
                    else V ! i ! j)"
    by (simp only: european_step_nth)
  show ?thesis
    by (rule backward_fold[of m "european_step q df m" "\<lambda>i j a b. (q * a + (1 - q) * b) * df" V0 m,
          OF sq st assms order_refl])
qed

lemma american_fold_cells:
  assumes "square (Suc m) V0" "square (Suc m) oreturn"
  shows "square (Suc m) (fold (american_step q df oreturn m) [0..<m] V0) \<and>
         (\<forall>i\<le>m. \<forall>j\<le>m. fold (american_step q df oreturn m) [0..<m] V0 ! i ! j =
            (if m - m \<le> j \<and> j < m \<and> i \<le> j
             then max ((q * (fold (american_step q df oreturn m) [0..<m] V0 ! i ! (j + 1))
                        + (1 - q) * (fold (american_step q df oreturn m) [0..<m] V0 ! (i + 1) ! (j + 1))) * df)
                      (oreturn ! i ! j)
             else V0 ! i ! j))"
proof -
  have sq: "\<And>z V. square (Suc m) V \<Longrightarrow> square (Suc m) (american_step q df oreturn m z V)"
    by (rule square_american_step)
  have st: "\<And>z V i j. square (Suc m) V \<Longrightarrow> z < m \<Longrightarrow> i \<le> m \<Longrightarrow> j \<le> m \<Longrightarrow>
                 american_step q df oreturn m z V ! i ! j =
                   (if j = m - z - 1 \<and> i < m - z
                    then (\<lambda>i j a b. max ((q * a + (1 - q) * b) * df) (oreturn ! i ! j)) i j
                           (V ! i ! (j + 1)) (V ! (i + 1) ! (j + 1))
                    else V ! i ! j)"
    using assms(2) by (simp only: american_step_nth)
  show ?thesis
    by (rule backward_fold[of m "american_step q df oreturn m"
            "\<lambda>i j a b. max ((q * a + (1 - q) * b) * df) (oreturn ! i ! j)" V0 m,
          OF sq st assms(1) order_refl])
qed

lemma european_loop_cells:
  assumes "square (Suc (nat M)) V0" "i \<le> nat M" "j \<le> nat M"
  shows "european_loop q df M V0 ! i ! j =
           (if j < nat M \<and> i \<le> j
            then (q * european_loop q df M V0 ! i ! (j + 1)
                   + (1 - q) * european_loop q df M V0 ! (i + 1) ! (j + 1)) * df
            else V0 ! i ! j)"
  using european_fold_cells[OF assms(1), of q df] assms(2,3)
  unfolding european_loop_def by simp

lemma square_european_loop:
  "square (Suc (nat M)) V0 \<Longrightarrow> square (Suc (nat M)) (european_loop q df M V0)"
  using european_fold_cells[of "nat M" V0 q df] unfolding european_loop_def by blast

lemma american_loop_cells:
  assumes "square (Suc (nat M)) V0" "square (Suc (nat M)) oreturn" "i \<le> nat M" "j \<le> nat M"
  shows "american_loop q df oreturn M V0 ! i ! j =
           (if j < nat M \<and> i \<le> j
            then max ((q * american_loop q df oreturn M V0 ! i ! (j + 1)
                       + (1 - q) * american_loop q df oreturn M V0 ! (i + 1) ! (j + 1)) * df)
                     (oreturn ! i ! j)
            else V0 ! i ! j)"
  using american_fold_cells[OF assms(1,2), of q df] assms(3,4)
  unfolding american_loop_def by simp

lemma square_american_loop:
  "square (Suc (nat M)) V0 \<Longrightarrow> square (Suc (nat M)) oreturn \<Longrightarrow>
   square (Suc (nat M)) (american_loop q df oreturn M V0)"
  using american_fold_cells[of "nat M" V0 oreturn q df] unfolding american_loop_def by blast

lemma european_InrD:
  assumes "CRR_european_option_value S0 K T r sigma otype Q M = Inr (V, S)"
  shows "\<exists>p. lattice_params T r sigma Q M = Inr p \<and> -1 \<le> M \<and>
             S = stock_prices S0 (p_u p) (p_d p) (column_indices (nat (M + 1))) \<and>
             V = european_loop (p_q p) (p_df p) M (inner_values otype K S)"
proof (cases "lattice_params T r sigma Q M")
  case (Inl e)
  then show ?thesis using assms european_error[OF Inl, of S0 K otype] by simp
next
  case (Inr p)
  have M: "-1 \<le> M"
  proof (rule ccontr)
    assume "\<not> -1 \<le> M"
    then have "M < -1" by simp
    then show False using european_resize_error[OF Inr, of S0 K otype] assms by simp
  qed
  show ?thesis using european_unfold[OF Inr M, of S0 K otype] assms Inr M by simp
qed

lemma american_InrD:
  assumes "CRR_american_option_value S0 K T r sigma otype Q M = Inr (V, S)"
  shows "\<exists>p. lattice_params T r sigma Q M = Inr p \<and> -1 \<le> M \<and>
             S = stock_prices S0 (p_u p) (p_d p) (column_indices (nat (M + 1))) \<and>
             V = american_loop (p_q p) (p_df p)
                   (advance_exercise otype S0 K (exp (r * p_dt p)) (column_indices (nat (M + 1)))) M
                   (inner_values otype K S)"
proof (cases "american_params T r sigma Q M")
  case (Inl e)
  then show ?thesis using assms american_error[OF Inl, of S0 K otype] by simp
next
  case (Inr pg)
  obtain p g where pg: "american_params T r sigma Q M = Inr (p, g)"
    using Inr by (cases pg) simp
  have p: "lattice_params T r sigma Q M = Inr p" and g: "g = exp (r * p_dt p)"
    using american_params_InrD[OF pg] by simp_all
  have M: "-1 \<le> M"
  proof (rule ccontr)
    assume "\<not> -1 \<le> M"
    then have "M < -1" by simp
    then show False using american_resize_error[OF pg, of S0 K otype] assms by simp
  qed
  show ?thesis using american_unfold[OF pg M, of S0 K otype] assms p M unfolding g by simp
qed

lemma tree_q:
  "p_q (tree T r sigma Q M) =
     (exp ((r - Q) * (T / real_of_int M)) - 1 / exp (sigma * sqrt (T / real_of_int M)))
     / (exp (sigma * sqrt (T / real_of_int M)) - 1 / exp (sigma * sqrt (T / real_of_int M)))"
proof -
  have "r * (T / real_of_int M) - Q * (T / real_of_int M) = (r - Q) * (T / real_of_int M)"
    by (rule left_diff_distrib[symmetric])
  then show ?thesis unfolding tree_def by simp
qed

lemma tree_df: "p_df (tree T r sigma Q M) = exp (- r * (T / real_of_int M))"
  by (simp add: tree_def)

lemma tree_dt: "p_dt (tree T r sigma Q M) = T / real_of_int M"
  by (simp add: tree_def)


lemma cell_square: "square n C \<Longrightarrow> i < n \<Longrightarrow> j < n \<Longrightarrow> cell C i j = Inr (C ! i ! j)"
  by (simp add: cell_def square_def)

lemma european_cells:
  assumes "CRR_european_option_value S0 K T r sigma otype Q M = Inr (V, S)" "1 \<le> M"
  defines "p \<equiv> tree T r sigma Q M"
  shows "square (Suc (nat M)) S \<and> square (Suc (nat M)) V \<and>
    (\<forall>i j. i \<le> nat M \<longrightarrow> j \<le> nat M \<longrightarrow>
           S ! i ! j = S0 * p_u p powi (int j - int i) * p_d p powi (int i)) \<and>
    (\<forall>i j. i \<le> nat M \<longrightarrow> j \<le> nat M \<longrightarrow>
           V ! i ! j =
             (if j < nat M \<and> i \<le> j
              then (p_q p * V ! i ! (j + 1) + (1 - p_q p) * V ! (i + 1) ! (j + 1)) * p_df p
              else if otype = ''call'' then max (S ! i ! j - K) 0 else max (K - S ! i ! j) 0))"
proof -
  obtain p' where p': "lattice_params T r sigma Q M = Inr p'"
    and S': "S = stock_prices S0 (p_u p') (p_d p') (column_indices (nat (M + 1)))"
    and V': "V = european_loop (p_q p') (p_df p') M (inner_values otype K S)"
    using european_InrD[OF assms(1)] by blast
  have pp: "p' = p" unfolding p_def by (rule lattice_params_tree[OF p'])
  note S = S'[unfolded pp] and V = V'[unfolded pp]
  have n: "nat (M + 1) = Suc (nat M)" using assms(2) by simp
  have sqS: "square (Suc (nat M)) S"
    unfolding S n by (rule square_stock_prices[OF square_column_indices])
  have sqV0: "square (Suc (nat M)) (inner_values otype K S)"
    by (rule square_inner_values[OF sqS])
  have sqV: "square (Suc (nat M)) V"
    unfolding V by (rule square_european_loop[OF sqV0])
  have Snth: "S ! i ! j = S0 * p_u p powi (int j - int i) * p_d p powi (int i)"
    if "i \<le> nat M" "j \<le> nat M" for i j
    unfolding S n using that by (simp add: stock_prices_nth)
  have Vnth: "V ! i ! j =
             (if j < nat M \<and> i \<le> j
              then (p_q p * V ! i ! (j + 1) + (1 - p_q p) * V ! (i + 1) ! (j + 1)) * p_df p
              else if otype = ''call'' then max (S ! i ! j - K) 0 else max (K - S ! i ! j) 0)"
    if "i \<le> nat M" "j \<le> nat M" for i j
  proof -
    have iv: "inner_values otype K S ! i ! j =
            (if otype = ''call'' then max (S ! i ! j - K) 0 else max (K - S ! i ! j) 0)"
      using that by (intro inner_values_nth[OF sqS]) simp_all
    have "V ! i ! j =
             (if j < nat M \<and> i \<le> j
              then (p_q p * V ! i ! (j + 1) + (1 - p_q p) * V ! (i + 1) ! (j + 1)) * p_df p
              else inner_values otype K S ! i ! j)"
      unfolding V by (rule european_loop_cells[OF sqV0 that])
    then show ?thesis by (simp only: iv)
  qed
  show ?thesis using sqS sqV Snth Vnth by (intro conjI allI impI)
qed

lemma american_cells:
  assumes "CRR_american_option_value S0 K T r sigma otype Q M = Inr (V, S)" "1 \<le> M"
  defines "p \<equiv> tree T r sigma Q M"
  shows "square (Suc (nat M)) S \<and> square (Suc (nat M)) V \<and>
    (\<forall>i j. i \<le> nat M \<longrightarrow> j \<le> nat M \<longrightarrow>
           S ! i ! j = S0 * p_u p powi (int j - int i) * p_d p powi (int i)) \<and>
    (\<forall>i j. i \<le> nat M \<longrightarrow> j \<le> nat M \<longrightarrow>
           V ! i ! j =
             (if j < nat M \<and> i \<le> j
              then max ((p_q p * V ! i ! (j + 1) + (1 - p_q p) * V ! (i + 1) ! (j + 1)) * p_df p)
                       (if otype = ''call'' then S0 * exp (r * p_dt p) ^ j - K
                        else K - S0 * exp (r * p_dt p) ^ j)
              else if otype = ''call'' then max (S ! i ! j - K) 0 else max (K - S ! i ! j) 0))"
proof -
  let ?mu = "column_indices (nat (M + 1))"
  obtain p' where p': "lattice_params T r sigma Q M = Inr p'"
    and S': "S = stock_prices S0 (p_u p') (p_d p') ?mu"
    and V': "V = american_loop (p_q p') (p_df p')
                  (advance_exercise otype S0 K (exp (r * p_dt p')) ?mu) M (inner_values otype K S)"
    using american_InrD[OF assms(1)] by blast
  have pp: "p' = p" unfolding p_def by (rule lattice_params_tree[OF p'])
  note S = S'[unfolded pp] and V = V'[unfolded pp]
  let ?o = "advance_exercise otype S0 K (exp (r * p_dt p)) ?mu"
  have n: "nat (M + 1) = Suc (nat M)" using assms(2) by simp
  have sqS: "square (Suc (nat M)) S"
    unfolding S n by (rule square_stock_prices[OF square_column_indices])
  have sqV0: "square (Suc (nat M)) (inner_values otype K S)"
    by (rule square_inner_values[OF sqS])
  have sqo: "square (Suc (nat M)) ?o"
    unfolding n by (rule square_advance_exercise[OF square_column_indices])
  have sqV: "square (Suc (nat M)) V"
    unfolding V by (rule square_american_loop[OF sqV0 sqo])
  have Snth: "S ! i ! j = S0 * p_u p powi (int j - int i) * p_d p powi (int i)"
    if "i \<le> nat M" "j \<le> nat M" for i j
    unfolding S n using that by (simp add: stock_prices_nth)
  have Vnth: "V ! i ! j =
             (if j < nat M \<and> i \<le> j
              then max ((p_q p * V ! i ! (j + 1) + (1 - p_q p) * V ! (i + 1) ! (j + 1)) * p_df p)
                       (if otype = ''call'' then S0 * exp (r * p_dt p) ^ j - K
                        else K - S0 * exp (r * p_dt p) ^ j)
              else if otype = ''call'' then max (S ! i ! j - K) 0 else max (K - S ! i ! j) 0)"
    if "i \<le> nat M" "j \<le> nat M" for i j
  proof -
    have iv: "inner_values otype K S ! i ! j =
            (if otype = ''call'' then max (S ! i ! j - K) 0 else max (K - S ! i ! j) 0)"
      using that by (intro inner_values_nth[OF sqS]) simp_all
    have ov: "?o ! i ! j = (if otype = ''call'' then S0 * exp (r * p_dt p) ^ j - K
                        else K - S0 * exp (r * p_dt p) ^ j)"
      unfolding n using that by (intro advance_exercise_nth) simp_all
    have "V ! i ! j =
             (if j < nat M \<and> i \<le> j
              then max ((p_q p * V ! i ! (j + 1) + (1 - p_q p) * V ! (i + 1) ! (j + 1)) * p_df p)
                       (?o ! i ! j)
              else inner_values otype K S ! i ! j)"
      unfolding V by (rule american_loop_cells[OF sqV0 sqo that])
    then show ?thesis by (simp only: iv ov)
  qed
  show ?thesis using sqS sqV Snth Vnth by (intro conjI allI impI)
qed

subsection \<open>Small runs, evaluated\<close>

text \<open>
  With \<open>sigma = ln 2\<close> and \<open>dt = 1\<close> the up factor is \<open>2\<close> and every cell is a
  rational number.
\<close>

lemma power_matrix_1: "power_matrix 1 = Inr [[0, 1], [0, 1]]"
  by (simp add: power_matrix_ok column_indices_def upt_rec)

lemma power_matrix_2: "power_matrix 2 = Inr [[0, 1, 2], [0, 1, 2], [0, 1, 2]]"
  by (simp add: power_matrix_ok column_indices_def upt_rec)

lemmas params_simps = lattice_params_def american_params_def time_step_def py_exp_def
  branching_def float_overflow_def rounds_to_zero_def rounds_to_one_def Let_def exp_minus

lemma lattice_params_1:
  "lattice_params 1 0 (ln 2) 0 1 = Inr \<lparr>p_dt = 1, p_df = 1, p_u = 2, p_d = 1 / 2, p_q = 1 / 3\<rparr>"
  by (simp add: params_simps)

lemma american_params_1:
  "american_params 1 0 (ln 2) 0 1 =
     Inr (\<lparr>p_dt = 1, p_df = 1, p_u = 2, p_d = 1 / 2, p_q = 1 / 3\<rparr>, 1)"
  by (simp add: params_simps)

lemma lattice_params_2:
  "lattice_params 2 0 (ln 2) (ln 4) 2 =
     Inr \<lparr>p_dt = 1, p_df = 1, p_u = 2, p_d = 1 / 2, p_q = - (1 / 6)\<rparr>"
  by (simp add: params_simps)

lemma american_params_2:
  "american_params 2 0 (ln 2) (ln 4) 2 =
     Inr (\<lparr>p_dt = 1, p_df = 1, p_u = 2, p_d = 1 / 2, p_q = - (1 / 6)\<rparr>, 1)"
  by (simp add: params_simps)

lemmas run_simps = np_transpose_def mat_map_def mat_map2_def stock_prices_def inner_values_def
  european_loop_def european_step_def american_loop_def american_step_def advance_exercise_def
  european_assignment_def american_assignment_def assign_def
  get_col_def set_col_def Let_def upt_rec power_int_def power_divide

lemma european_run_1:
  "CRR_european_option_value 100 100 1 0 (ln 2) ''call'' 0 1 =
     Inr ([[100 / 3, 100], [0, 0]], [[100, 200], [25, 50]])"
  by (simp add: CRR_european_option_value_def lattice_params_1 power_matrix_1 run_simps)

lemma american_run_put_1:
  "CRR_american_option_value 100 150 1 0 (ln 2) ''put'' 0 1 =
     Inr ([[200 / 3, 0], [125, 100]], [[100, 200], [25, 50]])"
  by (simp add: CRR_american_option_value_def american_params_1 power_matrix_1 run_simps)

lemma european_run_2:
  "CRR_european_option_value 100 100 2 0 (ln 2) ''call'' (ln 4) 2 =
     Inr ([[25 / 3, - 50, 300], [0, 0, 0], [0, 0, 0]],
          [[100, 200, 400], [25, 50, 100], [25 / 4, 25 / 2, 25]])"
  by (simp add: CRR_european_option_value_def lattice_params_2 power_matrix_2 run_simps)

lemma american_run_2:
  "CRR_american_option_value 100 100 2 0 (ln 2) ''call'' (ln 4) 2 =
     Inr ([[0, 0, 300], [0, 0, 0], [0, 0, 0]],
          [[100, 200, 400], [25, 50, 100], [25 / 4, 25 / 2, 25]])"
  by (simp add: CRR_american_option_value_def american_params_2 power_matrix_2 run_simps)

lemma lattice_params_3:
  "lattice_params 1 (ln 2) (ln 2) (ln 2) 1 =
     Inr \<lparr>p_dt = 1, p_df = 1 / 2, p_u = 2, p_d = 1 / 2, p_q = 1 / 3\<rparr>"
  by (simp add: params_simps)

lemma american_params_3:
  "american_params 1 (ln 2) (ln 2) (ln 2) 1 =
     Inr (\<lparr>p_dt = 1, p_df = 1 / 2, p_u = 2, p_d = 1 / 2, p_q = 1 / 3\<rparr>, 2)"
  by (simp add: params_simps)

lemma european_run_3:
  "CRR_european_option_value 100 250 1 (ln 2) (ln 2) ''put'' (ln 2) 1 =
     Inr ([[75, 50], [225, 200]], [[100, 200], [25, 50]])"
  by (simp add: CRR_european_option_value_def lattice_params_3 power_matrix_1 run_simps)

lemma american_run_3:
  "CRR_american_option_value 100 250 1 (ln 2) (ln 2) ''put'' (ln 2) 1 =
     Inr ([[150, 50], [225, 200]], [[100, 200], [25, 50]])"
  by (simp add: CRR_american_option_value_def american_params_3 power_matrix_1 run_simps)

lemma lattice_params_back:
  "lattice_params (- 1) 0 (ln 2) 0 (- 1) =
     Inr \<lparr>p_dt = 1, p_df = 1, p_u = 2, p_d = 1 / 2, p_q = 1 / 3\<rparr>"
  by (simp add: params_simps)

lemma power_matrix_back: "power_matrix (- 1) = Inr []"
  by (simp add: power_matrix_def resize_def arange_def)

lemma european_run_back:
  "CRR_european_option_value 100 100 (- 1) 0 (ln 2) ''call'' 0 (- 1) = Inr ([], [])"
  by (simp add: CRR_european_option_value_def lattice_params_back power_matrix_back run_simps)

text \<open>
  The parameters of the source's own calls (lines 130-136): \<open>T = 1\<close>, \<open>r = 0.05\<close>,
  \<open>sigma = 0.2\<close>, \<open>Q = 0.02\<close>, \<open>M = 4\<close>. Nothing overflows or rounds to zero or one
  there, nor with the volatility negated.
\<close>

lemma exp_no_overflow: "x \<le> 1 \<Longrightarrow> \<not> float_overflow (exp x)"
proof -
  assume "x \<le> 1"
  then have "exp x \<le> exp 1" by simp
  also have "exp 1 \<le> (3::real)" by (rule exp_le)
  finally have "\<bar>exp x\<bar> \<le> 3" by simp
  then show ?thesis by (simp add: float_overflow_def)
qed

lemma exp_not_zero: "- 1 \<le> x \<Longrightarrow> \<not> rounds_to_zero (exp x)"
proof -
  assume x: "- 1 \<le> x"
  have "1 = exp x * exp (- x)" by (simp add: exp_minus)
  also have "\<dots> \<le> exp x * exp 1" using x by (intro mult_left_mono) simp_all
  also have "\<dots> \<le> exp x * 3" using exp_le by (intro mult_left_mono) simp_all
  finally have "1 / 3 \<le> \<bar>exp x\<bar>" by simp
  then show ?thesis by (simp add: rounds_to_zero_def)
qed

lemma exp_not_one_above: "1 / 1000 \<le> x \<Longrightarrow> \<not> rounds_to_one (exp x)"
proof -
  assume "1 / 1000 \<le> x"
  then have "1001 / 1000 \<le> 1 + x" by simp
  also have "1 + x \<le> exp x" by (rule exp_ge_add_one_self)
  finally show ?thesis by (simp add: rounds_to_one_def)
qed


lemma sqrt_quarter: "sqrt (1 / 4) = 1 / 2"
  by (simp add: real_sqrt_divide)

lemma lattice_params_demo:
  "lattice_params 1 (5 / 100) (2 / 10) (2 / 100) 4 = Inr (tree 1 (5 / 100) (2 / 10) (2 / 100) 4)"
proof (rule lattice_params_ok)
  show "(4::int) \<noteq> 0" by simp
  show "\<not> float_overflow (real_of_int 4)" by (simp add: float_overflow_def)
  show "\<not> rounds_to_zero (1 / real_of_int 4)" by (simp add: rounds_to_zero_def)
  show "0 \<le> 1 / real_of_int 4" by simp
  show "\<not> float_overflow (exp (- (5 / 100) * (1 / real_of_int 4)))"
    by (rule exp_no_overflow) simp
  show "\<not> float_overflow (exp (2 / 10 * sqrt (1 / real_of_int 4)))"
    by (rule exp_no_overflow) (simp add: sqrt_quarter)
  show "\<not> rounds_to_zero (exp (2 / 10 * sqrt (1 / real_of_int 4)))"
    by (rule exp_not_zero) (simp add: sqrt_quarter)
  show "\<not> float_overflow (exp (5 / 100 * (1 / real_of_int 4) - 2 / 100 * (1 / real_of_int 4)))"
    by (rule exp_no_overflow) simp
  show "\<not> rounds_to_one (exp (2 / 10 * sqrt (1 / real_of_int 4)))"
    by (rule exp_not_one_above) (simp add: sqrt_quarter)
qed



text \<open>With \<open>sigma = 0\<close> the up factor is \<open>exp 0\<close>, and line 35 or 75 divides by zero.\<close>

lemma time_step_demo: "time_step 1 4 = Inr (1 / real_of_int 4)"
  by (simp add: time_step_def float_overflow_def rounds_to_zero_def)

lemma branching_flat:
  assumes "0 \<le> dt" "\<not> float_overflow (exp (r * dt - Q * dt))"
  shows "branching r 0 Q dt = Inl ZeroDivisionError"
proof -
  have u: "py_exp (0 * sqrt dt) = Inr 1" by (simp add: py_exp_def float_overflow_def)
  have z: "\<not> rounds_to_zero 1" by (simp add: rounds_to_zero_def)
  show ?thesis
    unfolding branching_def Let_def
    using assms(1) by (simp only: u py_exp_ok[OF assms(2)] z rounds_to_one_1 sum.case if_True if_False not_less[symmetric])
qed

lemma lattice_params_flat:
  "lattice_params 1 (5 / 100) 0 (2 / 100) 4 = Inl ZeroDivisionError"
proof -
  have df: "py_exp (- (5 / 100) * (1 / real_of_int 4)) = Inr (exp (- (5 / 100) * (1 / real_of_int 4)))"
    by (rule py_exp_ok, rule exp_no_overflow) simp
  have b: "branching (5 / 100) 0 (2 / 100) (1 / real_of_int 4) = Inl ZeroDivisionError"
    by (rule branching_flat, simp, rule exp_no_overflow) simp
  show ?thesis
    unfolding lattice_params_def by (simp only: time_step_demo df b sum.case)
qed

lemma american_params_flat:
  "american_params 1 (5 / 100) 0 (2 / 100) 4 = Inl ZeroDivisionError"
proof -
  have df: "py_exp (- (5 / 100) * (1 / real_of_int 4)) = Inr (exp (- (5 / 100) * (1 / real_of_int 4)))"
    by (rule py_exp_ok, rule exp_no_overflow) simp
  have g: "py_exp (5 / 100 * (1 / real_of_int 4)) = Inr (exp (5 / 100 * (1 / real_of_int 4)))"
    by (rule py_exp_ok, rule exp_no_overflow) simp
  have b: "branching (5 / 100) 0 (2 / 100) (1 / real_of_int 4) = Inl ZeroDivisionError"
    by (rule branching_flat, simp, rule exp_no_overflow) simp
  show ?thesis
    unfolding american_params_def by (simp only: time_step_demo df g b sum.case)
qed

text \<open>
  Extreme arguments, at the other parameters of the source's own calls: with
  \<open>sigma = 1e-17\<close> the up factor is \<open>1.0\<close> and line 35 divides by zero; with
  \<open>sigma = 2000\<close> \<^verbatim>\<open>math.exp\<close> overflows in line 33; with \<open>sigma = -2000\<close> the up factor
  is \<open>0.0\<close> and line 34 divides by zero; with \<open>r = 1000\<close> and \<open>M = -1\<close> \<^verbatim>\<open>math.exp\<close>
  overflows in line 30, before \<^verbatim>\<open>math.sqrt\<close> is reached.
\<close>

lemma exp_1000: "(5 / 2) ^ 1000 \<le> exp (1000 :: real)"
proof -
  have "5 / 2 \<le> exp (1 :: real)" using exp_lower_Taylor_quadratic[of "1 :: real"] by simp
  then have "(5 / 2) ^ 1000 \<le> exp (1 :: real) ^ 1000" by (intro power_mono) simp_all
  also have "\<dots> = exp (of_nat 1000 * (1 :: real))" by (rule exp_of_nat_mult[symmetric])
  finally show ?thesis by simp
qed

lemma power_1200: "(2 :: real) ^ 1200 \<le> (5 / 2) ^ 1000"
proof -
  have "(2 :: real) ^ 6 \<le> (5 / 2) ^ 5" by (simp add: power_divide)
  then have "((2 :: real) ^ 6) ^ 200 \<le> ((5 / 2) ^ 5) ^ 200" by (intro power_mono) simp_all
  then have "(2 :: real) ^ (6 * 200) \<le> (5 / 2) ^ (5 * 200)" by (simp only: power_mult)
  then show ?thesis by simp
qed

lemma exp_1000_overflow: "float_overflow (exp 1000)"
proof -
  have "(2 :: real) ^ 1024 - 2 ^ 970 \<le> 2 ^ 1200" by simp
  also have "\<dots> \<le> (5 / 2) ^ 1000" by (rule power_1200)
  also have "\<dots> \<le> \<bar>exp (1000 :: real)\<bar>" using exp_1000 by simp
  finally show ?thesis by (simp only: float_overflow_def)
qed

lemma exp_minus_1000_zero: "rounds_to_zero (exp (- 1000))"
proof -
  have "(2 :: real) ^ 1075 \<le> 2 ^ 1200" by simp
  also have "\<dots> \<le> (5 / 2) ^ 1000" by (rule power_1200)
  also have "\<dots> \<le> exp (1000 :: real)" by (rule exp_1000)
  finally have "1 / exp (1000 :: real) \<le> 1 / 2 ^ 1075"
    by (intro divide_left_mono) simp_all
  then have "\<bar>exp (- 1000 :: real)\<bar> \<le> 1 / 2 ^ 1075" by (simp add: exp_minus inverse_eq_divide)
  then show ?thesis by (simp only: rounds_to_zero_def)
qed

lemma exp_tiny_one: "rounds_to_one (exp (1 / (2 * 10 ^ 17)))"
proof -
  let ?x = "1 / (2 * 10 ^ 17) :: real"
  have "exp ?x \<le> 1 + ?x + ?x\<^sup>2" by (rule exp_bound) simp_all
  also have "\<dots> \<le> 1 + 1 / 2 ^ 53" by (simp add: power2_eq_square)
  finally have up: "exp ?x \<le> 1 + 1 / 2 ^ 53" .
  have "1 - 1 / 2 ^ 54 \<le> (1 :: real)" by simp
  also have "1 \<le> exp ?x" by simp
  finally show ?thesis using up by (simp only: rounds_to_one_def)
qed

lemma df_demo:
  "py_exp (- (5 / 100) * (1 / real_of_int 4)) = Inr (exp (- (5 / 100) * (1 / real_of_int 4)))"
  by (rule py_exp_ok, rule exp_no_overflow) simp

lemma tiny_volatility_run:
  "CRR_european_option_value 100 100 1 (5 / 100) (1 / 10 ^ 17) ''call'' (2 / 100) 4 =
     Inl ZeroDivisionError"
proof -
  have x: "1 / 10 ^ 17 * sqrt (1 / real_of_int 4) = 1 / (2 * 10 ^ 17)"
    by (simp add: sqrt_quarter)
  have u: "py_exp (1 / (2 * 10 ^ 17)) = Inr (exp (1 / (2 * 10 ^ 17)))"
    by (rule py_exp_ok, rule exp_no_overflow) simp
  have z: "\<not> rounds_to_zero (exp (1 / (2 * 10 ^ 17)))" by (rule exp_not_zero) simp
  have g: "py_exp (5 / 100 * (1 / real_of_int 4) - 2 / 100 * (1 / real_of_int 4)) =
             Inr (exp (5 / 100 * (1 / real_of_int 4) - 2 / 100 * (1 / real_of_int 4)))"
    by (rule py_exp_ok, rule exp_no_overflow) simp
  have b: "branching (5 / 100) (1 / 10 ^ 17) (2 / 100) (1 / real_of_int 4) = Inl ZeroDivisionError"
    unfolding branching_def Let_def x
    by (simp only: u z g exp_tiny_one sum.case if_True if_False) simp
  have "lattice_params 1 (5 / 100) (1 / 10 ^ 17) (2 / 100) 4 = Inl ZeroDivisionError"
    unfolding lattice_params_def by (simp only: time_step_demo df_demo b sum.case)
  then show ?thesis by (rule european_error)
qed

lemma huge_volatility_run:
  "CRR_european_option_value 100 100 1 (5 / 100) 2000 ''call'' (2 / 100) 4 = Inl OverflowError"
proof -
  have x: "2000 * sqrt (1 / real_of_int 4) = 1000" by (simp add: sqrt_quarter)
  have u: "py_exp 1000 = Inl OverflowError" by (simp add: py_exp_def exp_1000_overflow)
  have b: "branching (5 / 100) 2000 (2 / 100) (1 / real_of_int 4) = Inl OverflowError"
    unfolding branching_def Let_def x by (simp only: u sum.case) simp
  have "lattice_params 1 (5 / 100) 2000 (2 / 100) 4 = Inl OverflowError"
    unfolding lattice_params_def by (simp only: time_step_demo df_demo b sum.case)
  then show ?thesis by (rule european_error)
qed

lemma huge_negative_volatility_run:
  "CRR_european_option_value 100 100 1 (5 / 100) (- 2000) ''call'' (2 / 100) 4 = Inl ZeroDivisionError"
proof -
  have x: "- 2000 * sqrt (1 / real_of_int 4) = - 1000" by (simp add: sqrt_quarter)
  have u: "py_exp (- 1000) = Inr (exp (- 1000))"
    by (rule py_exp_ok, rule exp_no_overflow) simp
  have b: "branching (5 / 100) (- 2000) (2 / 100) (1 / real_of_int 4) = Inl ZeroDivisionError"
    unfolding branching_def Let_def x by (simp only: u exp_minus_1000_zero sum.case if_True) simp
  have "lattice_params 1 (5 / 100) (- 2000) (2 / 100) 4 = Inl ZeroDivisionError"
    unfolding lattice_params_def by (simp only: time_step_demo df_demo b sum.case)
  then show ?thesis by (rule european_error)
qed

lemma huge_rate_run:
  "CRR_european_option_value 100 100 1 1000 (2 / 10) ''call'' (2 / 100) (- 1) = Inl OverflowError"
proof -
  have ts: "time_step 1 (- 1) = Inr (- 1)"
    by (simp add: time_step_def float_overflow_def rounds_to_zero_def)
  have df: "py_exp (- 1000 * - 1) = Inl OverflowError" by (simp add: py_exp_def exp_1000_overflow)
  have "lattice_params 1 1000 (2 / 10) (2 / 100) (- 1) = Inl OverflowError"
    unfolding lattice_params_def by (simp only: ts df sum.case)
  then show ?thesis by (rule european_error)
qed

section \<open>The stock-price lattice\<close>

lemma european_returns:
  assumes "lattice_params T r sigma Q M = Inr p" "-1 \<le> M"
  shows "\<exists>V S. CRR_european_option_value S0 K T r sigma otype Q M = Inr (V, S)"
  using european_unfold[OF assms, of S0 K otype] by simp

lemma american_returns:
  assumes "american_params T r sigma Q M = Inr (p, g)" "-1 \<le> M"
  shows "\<exists>V S. CRR_american_option_value S0 K T r sigma otype Q M = Inr (V, S)"
  using american_unfold[OF assms, of S0 K otype] by simp

text \<open>
  Claim C1 states that for \<open>M \<ge> 1\<close>, \<open>T > 0\<close> and \<open>sigma \<ge> 0\<close> the European pricer
  builds the lattice with \<open>dt = T / M\<close>, \<open>u = exp (sigma * sqrt dt)\<close>, \<open>d = 1 / u\<close>,
  \<open>q = (exp ((r - Q) * dt) - d) / (u - d)\<close> and returns \<open>S[i,j] = S0 * u^(j-i) * d^i\<close>
  for \<open>0 \<le> i \<le> j \<le> M\<close>. The pricer does not return on every such input: at
  \<open>sigma = 0\<close>, and wherever \<open>u\<close> is \<open>1.0\<close> as a float, line 35 divides by \<open>u - d = 0\<close>,
  and \<^verbatim>\<open>math.exp\<close> raises where its result overflows. The claim as amended: for every
  input with \<open>M \<ge> 1\<close> on which lines 29-35 raise nothing, the parameters they compute are
  these, the pricer returns, and the \<open>S\<close> it returns has \<open>S[i,j] = S0 * u^(j-i) * d^i\<close> for
  \<open>0 \<le> i \<le> j \<le> M\<close>. Lemma \<open>lattice_params_ok\<close> lists conditions under which lines
  29-35 raise nothing, and they hold at the parameters of the source's own calls.
\<close>

theorem european_lattice_construction:
  assumes "1 \<le> M"
    and "lattice_params T r sigma Q M = Inr p"
  shows "let dt = T / real_of_int M; u = exp (sigma * sqrt dt); d = 1 / u;
             q = (exp ((r - Q) * dt) - d) / (u - d)
         in p = \<lparr>p_dt = dt, p_df = exp (- r * dt), p_u = u, p_d = d, p_q = q\<rparr> \<and>
            (\<exists>V S. CRR_european_option_value S0 K T r sigma otype Q M = Inr (V, S) \<and>
                   (\<forall>i j. i \<le> j \<and> j \<le> nat M \<longrightarrow> cell S i j = Inr (S0 * u ^ (j - i) * d ^ i)))"
proof -
  define dt where "dt = T / real_of_int M"
  define u where "u = exp (sigma * sqrt dt)"
  have M: "-1 \<le> M" using assms(1) by simp
  have alg: "r * dt - Q * dt = (r - Q) * dt" by (rule left_diff_distrib[symmetric])
  have p: "p = \<lparr>p_dt = dt, p_df = exp (- r * dt), p_u = u, p_d = 1 / u,
                  p_q = (exp ((r - Q) * dt) - 1 / u) / (u - 1 / u)\<rparr>"
    using lattice_params_tree[OF assms(2)] unfolding tree_def u_def dt_def[symmetric] alg .
  obtain V S where run: "CRR_european_option_value S0 K T r sigma otype Q M = Inr (V, S)"
    using european_returns[OF assms(2) M, of S0 K otype] by blast
  have sq: "square (Suc (nat M)) S"
    and Snth: "\<And>i j. i \<le> nat M \<Longrightarrow> j \<le> nat M \<Longrightarrow>
           S ! i ! j = S0 * u powi (int j - int i) * (1 / u) powi (int i)"
    using european_cells[OF run assms(1)] unfolding tree_def u_def dt_def by simp_all
  have "cell S i j = Inr (S0 * u ^ (j - i) * (1 / u) ^ i)" if "i \<le> j" "j \<le> nat M" for i j
  proof -
    have e: "int j - int i = int (j - i)" using that by simp
    have "S ! i ! j = S0 * u powi (int (j - i)) * (1 / u) powi (int i)"
      using Snth[of i j] that unfolding e by simp
    then have "S ! i ! j = S0 * u ^ (j - i) * (1 / u) ^ i"
      by (simp only: power_int_of_nat)
    then show ?thesis using cell_square[OF sq, of i j] that by simp
  qed
  then show ?thesis
    unfolding Let_def dt_def[symmetric] u_def[symmetric] using p run by blast
qed

theorem european_lattice_construction_witness:
  "(1::int) \<le> 4 \<and>
   lattice_params 1 (5 / 100) (2 / 10) (2 / 100) 4 = Inr (tree 1 (5 / 100) (2 / 10) (2 / 100) 4) \<and>
   p_u (tree 1 (5 / 100) (2 / 10) (2 / 100) 4) = exp (2 / 10 * sqrt (1 / 4)) \<and>
   (\<exists>V S. CRR_european_option_value 100 100 1 (5 / 100) (2 / 10) ''call'' (2 / 100) 4 = Inr (V, S) \<and>
          cell S 0 0 = Inr 100 \<and>
          cell S 1 2 = Inr (100 * exp (2 / 10 * sqrt (1 / 4)) ^ 1 * (1 / exp (2 / 10 * sqrt (1 / 4))) ^ 1))"
proof -
  obtain V S where run: "CRR_european_option_value 100 100 1 (5 / 100) (2 / 10) ''call'' (2 / 100) 4 = Inr (V, S)"
    and cells: "\<forall>i j. i \<le> j \<and> j \<le> nat 4 \<longrightarrow>
          cell S i j = Inr (100 * exp (2 / 10 * sqrt (1 / 4)) ^ (j - i) * (1 / exp (2 / 10 * sqrt (1 / 4))) ^ i)"
    and u: "p_u (tree 1 (5 / 100) (2 / 10) (2 / 100) 4) = exp (2 / 10 * sqrt (1 / 4))"
    using european_lattice_construction[OF _ lattice_params_demo, of 100 100 "''call''"]
    unfolding Let_def by auto
  have "cell S 0 0 = Inr 100" using cells[rule_format, of 0 0] by simp
  moreover have "cell S 1 2 = Inr (100 * exp (2 / 10 * sqrt (1 / 4)) ^ 1 * (1 / exp (2 / 10 * sqrt (1 / 4))) ^ 1)"
    using cells[rule_format, of 1 2] by simp
  ultimately show ?thesis using run u lattice_params_demo by auto
qed

text \<open>
  The claim as stated fails at the parameters of the source's own calls with zero
  volatility: \<open>M = 4\<close>, \<open>T = 1\<close>, \<open>sigma = 0\<close>, and the pricer raises.
\<close>

theorem zero_volatility_counterexample:
  "CRR_european_option_value 100 100 1 (5 / 100) 0 ''call'' (2 / 100) 4 = Inl ZeroDivisionError"
  by (rule european_error[OF lattice_params_flat])

text \<open>
  Claim C8: for \<open>M \<ge> 1\<close>, the stock-price lattice returned by either pricer has
  \<open>S[0,0] = S0\<close> exactly. The cell is \<open>S0 * u^0 * d^0\<close>, and the proof uses nothing
  but \<open>x^0 = 1\<close> and \<open>x * 1 = x\<close>.
\<close>

theorem root_stock_price:
  assumes "1 \<le> M"
    and "CRR_european_option_value S0 K T r sigma otype Q M = Inr (V, S) \<or>
         CRR_american_option_value S0 K T r sigma otype Q M = Inr (V, S)"
  shows "cell S 0 0 = Inr S0"
proof -
  have "square (Suc (nat M)) S \<and> S ! 0 ! 0 = S0"
    using assms(2)
  proof
    assume e: "CRR_european_option_value S0 K T r sigma otype Q M = Inr (V, S)"
    show ?thesis using european_cells[OF e assms(1)] by simp
  next
    assume a: "CRR_american_option_value S0 K T r sigma otype Q M = Inr (V, S)"
    show ?thesis using american_cells[OF a assms(1)] by simp
  qed
  then show ?thesis using cell_square[of "Suc (nat M)" S 0 0] by simp
qed

theorem root_stock_price_witness:
  "(1::int) \<le> 1 \<and>
   CRR_european_option_value 100 100 1 0 (ln 2) ''call'' 0 1 = Inr ([[100 / 3, 100], [0, 0]], [[100, 200], [25, 50]]) \<and>
   CRR_american_option_value 100 150 1 0 (ln 2) ''put'' 0 1 = Inr ([[200 / 3, 0], [125, 100]], [[100, 200], [25, 50]]) \<and>
   cell [[100, 200], [25, 50]] 0 0 = Inr 100"
  using root_stock_price[of 1 100 100 1 0 "ln 2" "''call''" 0 "[[100 / 3, 100], [0, 0]]" "[[100, 200], [25, 50]]"]
    root_stock_price[of 1 100 150 1 0 "ln 2" "''put''" 0 "[[200 / 3, 0], [125, 100]]" "[[100, 200], [25, 50]]"]
    european_run_1 american_run_put_1
  by simp

section \<open>The backward induction\<close>

text \<open>
  Claim C2 states that for every input with \<open>M \<ge> 1\<close> the European pricer sets the
  terminal column \<open>V[i,M] = max (S[i,M] - K) 0\<close> for a call and \<open>max (K - S[i,M]) 0\<close> for
  a put, \<open>0 \<le> i \<le> M\<close>, then sets every cell of a column \<open>j < M\<close> with \<open>i \<le> j\<close> to
  \<open>df * (q * V[i,j+1] + (1 - q) * V[i+1,j+1])\<close> with \<open>df = exp (- r * dt)\<close>, with no
  comparison against an exercise value, and returns the present value \<open>V[0,0]\<close>. The
  pricer sets nothing where lines 29-35 raise, as they do at \<open>sigma = 0\<close>. The claim as
  amended: for every input with \<open>M \<ge> 1\<close> on which lines 29-35 raise nothing, the pricer
  returns, and the lattice \<open>V\<close> it returns has that terminal column and those cells,
  \<open>V[0,0]\<close> among them.
\<close>

theorem european_backward_induction:
  assumes "1 \<le> M"
    and "lattice_params T r sigma Q M = Inr p"
  shows "let dt = T / real_of_int M; df = exp (- r * dt); u = exp (sigma * sqrt dt); d = 1 / u;
             q = (exp ((r - Q) * dt) - d) / (u - d)
         in \<exists>V S. CRR_european_option_value S0 K T r sigma otype Q M = Inr (V, S) \<and>
              square (Suc (nat M)) V \<and> square (Suc (nat M)) S \<and>
              (\<forall>i\<le>nat M. cell V i (nat M) =
                 Inr (if otype = ''call'' then max (S ! i ! nat M - K) 0 else max (K - S ! i ! nat M) 0)) \<and>
              (\<forall>j<nat M. \<forall>i\<le>j. cell V i j =
                 Inr (df * (q * V ! i ! (j + 1) + (1 - q) * V ! (i + 1) ! (j + 1))))"
proof -
  let ?p = "tree T r sigma Q M"
  have M: "-1 \<le> M" using assms(1) by simp
  obtain V S where run: "CRR_european_option_value S0 K T r sigma otype Q M = Inr (V, S)"
    using european_returns[OF assms(2) M, of S0 K otype] by blast
  have sqS: "square (Suc (nat M)) S" and sqV: "square (Suc (nat M)) V"
    and Vnth: "\<And>i j. i \<le> nat M \<Longrightarrow> j \<le> nat M \<Longrightarrow>
           V ! i ! j =
             (if j < nat M \<and> i \<le> j
              then (p_q ?p * V ! i ! (j + 1) + (1 - p_q ?p) * V ! (i + 1) ! (j + 1)) * p_df ?p
              else if otype = ''call'' then max (S ! i ! j - K) 0 else max (K - S ! i ! j) 0)"
    using european_cells[OF run assms(1)] by simp_all
  have terminal: "cell V i (nat M) =
      Inr (if otype = ''call'' then max (S ! i ! nat M - K) 0 else max (K - S ! i ! nat M) 0)"
    if "i \<le> nat M" for i
    using Vnth[OF that order_refl] cell_square[OF sqV, of i "nat M"] that by simp
  have inner: "cell V i j =
      Inr (p_df ?p * (p_q ?p * V ! i ! (j + 1) + (1 - p_q ?p) * V ! (i + 1) ! (j + 1)))"
    if "j < nat M" "i \<le> j" for i j
  proof -
    have "V ! i ! j = (p_q ?p * V ! i ! (j + 1) + (1 - p_q ?p) * V ! (i + 1) ! (j + 1)) * p_df ?p"
      using Vnth[of i j] that by simp
    then show ?thesis using cell_square[OF sqV, of i j] that by (simp add: mult.commute)
  qed
  show ?thesis
    unfolding Let_def using run sqS sqV terminal inner unfolding tree_q tree_df by blast
qed

theorem european_backward_induction_witness:
  "(1::int) \<le> 2 \<and>
   lattice_params 2 0 (ln 2) (ln 4) 2 =
     Inr \<lparr>p_dt = 1, p_df = 1, p_u = 2, p_d = 1 / 2, p_q = - (1 / 6)\<rparr> \<and>
   CRR_european_option_value 100 100 2 0 (ln 2) ''call'' (ln 4) 2 =
     Inr ([[25 / 3, - 50, 300], [0, 0, 0], [0, 0, 0]],
          [[100, 200, 400], [25, 50, 100], [25 / 4, 25 / 2, 25]]) \<and>
   cell [[25 / 3, - 50, 300], [0, 0, 0], [0, 0, 0]] 0 2 = Inr (max (400 - 100) 0) \<and>
   cell [[25 / 3, - 50, 300], [0, 0, 0], [0, 0, 0]] 1 2 = Inr (max (100 - 100) 0) \<and>
   cell [[25 / 3, - 50, 300], [0, 0, 0], [0, 0, 0]] 0 1 = Inr (1 * (- (1 / 6) * 300 + (1 - - (1 / 6)) * 0)) \<and>
   cell [[25 / 3, - 50, 300], [0, 0, 0], [0, 0, 0]] 1 1 = Inr (1 * (- (1 / 6) * 0 + (1 - - (1 / 6)) * 0)) \<and>
   cell [[25 / 3, - 50, 300], [0, 0, 0], [0, 0, 0]] 0 0 = Inr (1 * (- (1 / 6) * - 50 + (1 - - (1 / 6)) * 0))"
  using european_backward_induction[OF _ lattice_params_2, of 100 100 "''call''"]
    lattice_params_2 european_run_2
  by (simp add: cell_def)

text \<open>
  The claim as stated fails at the parameters of the source's own calls with zero
  volatility, for a put: the pricer raises in line 35 and sets no cell.
\<close>

theorem european_sets_nothing_counterexample:
  "CRR_european_option_value 100 100 1 (5 / 100) 0 ''put'' (2 / 100) 4 = Inl ZeroDivisionError"
  by (rule european_error[OF lattice_params_flat])

text \<open>
  Claim C10: for \<open>M \<ge> 1\<close>, every cell below the diagonal (\<open>i > j\<close>) of the lattice
  \<open>V\<close> the European pricer returns holds the inner value of that cell's stock price,
  \<open>max (S[i,j] - K) 0\<close> for a call and \<open>max (K - S[i,j]) 0\<close> for a put.
\<close>

theorem european_padding:
  assumes "1 \<le> M"
    and "CRR_european_option_value S0 K T r sigma otype Q M = Inr (V, S)"
  shows "\<forall>i j. j < i \<and> i \<le> nat M \<longrightarrow>
           cell V i j = Inr (if otype = ''call'' then max (S ! i ! j - K) 0 else max (K - S ! i ! j) 0)"
proof (intro allI impI)
  fix i j assume ij: "j < i \<and> i \<le> nat M"
  have sqV: "square (Suc (nat M)) V"
    and Vnth: "\<And>i j. i \<le> nat M \<Longrightarrow> j \<le> nat M \<Longrightarrow>
           V ! i ! j =
             (if j < nat M \<and> i \<le> j
              then (p_q (tree T r sigma Q M) * V ! i ! (j + 1)
                    + (1 - p_q (tree T r sigma Q M)) * V ! (i + 1) ! (j + 1)) * p_df (tree T r sigma Q M)
              else if otype = ''call'' then max (S ! i ! j - K) 0 else max (K - S ! i ! j) 0)"
    using european_cells[OF assms(2,1)] by simp_all
  have "V ! i ! j = (if otype = ''call'' then max (S ! i ! j - K) 0 else max (K - S ! i ! j) 0)"
    using Vnth[of i j] ij by simp
  then show "cell V i j = Inr (if otype = ''call'' then max (S ! i ! j - K) 0 else max (K - S ! i ! j) 0)"
    using cell_square[OF sqV, of i j] ij by simp
qed

theorem european_padding_witness:
  "(1::int) \<le> 1 \<and>
   CRR_european_option_value 100 250 1 (ln 2) (ln 2) ''put'' (ln 2) 1 =
     Inr ([[75, 50], [225, 200]], [[100, 200], [25, 50]]) \<and>
   (0::nat) < 1 \<and> (1::nat) \<le> nat 1 \<and>
   cell [[75, 50], [225, 200]] 1 0 = Inr (max (250 - [[100, 200], [25, 50]] ! 1 ! 0) 0)"
  using european_padding[OF _ european_run_3, rule_format, of 0 1] european_run_3
  by (simp add: cell_def)

text \<open>
  Claim C3 states that for every input with \<open>M \<ge> 1\<close> the American pricer has the
  terminal column of the European pricer and sets every cell of a column \<open>j < M\<close> with
  \<open>i \<le> j\<close> to the maximum of the discounted expectation
  \<open>df * (q * V[i,j+1] + (1 - q) * V[i+1,j+1])\<close> and the exercise value \<open>E - K\<close> for a
  call, \<open>K - E\<close> for a put, with \<open>E = S0 * exp (r * dt)^j\<close>, the same for every row \<open>i\<close>.
  The pricer sets nothing where lines 68-75 raise, as they do at \<open>sigma = 0\<close>. The claim
  as amended: for every input with \<open>M \<ge> 1\<close> on which lines 68-75 raise nothing, the
  American pricer returns, the European pricer returns the same \<open>S\<close> and a lattice with
  the same terminal column, and the lattice \<open>V\<close> the American pricer returns has those
  cells.
\<close>

theorem american_backward_induction:
  assumes "1 \<le> M"
    and "american_params T r sigma Q M = Inr (p, g)"
  shows "let dt = T / real_of_int M; df = exp (- r * dt); u = exp (sigma * sqrt dt); d = 1 / u;
             q = (exp ((r - Q) * dt) - d) / (u - d)
         in \<exists>V S. CRR_american_option_value S0 K T r sigma otype Q M = Inr (V, S) \<and>
              square (Suc (nat M)) V \<and> square (Suc (nat M)) S \<and>
              (\<forall>i\<le>nat M. cell V i (nat M) =
                 Inr (if otype = ''call'' then max (S ! i ! nat M - K) 0 else max (K - S ! i ! nat M) 0)) \<and>
              (\<exists>V'. CRR_european_option_value S0 K T r sigma otype Q M = Inr (V', S) \<and>
                 (\<forall>i\<le>nat M. cell V i (nat M) = cell V' i (nat M))) \<and>
              (\<forall>j<nat M. \<forall>i\<le>j. cell V i j =
                 Inr (max (df * (q * V ! i ! (j + 1) + (1 - q) * V ! (i + 1) ! (j + 1)))
                          (if otype = ''call'' then S0 * exp (r * dt) ^ j - K
                           else K - S0 * exp (r * dt) ^ j)))"
proof -
  let ?p = "tree T r sigma Q M"
  have M: "-1 \<le> M" using assms(1) by simp
  have lp: "lattice_params T r sigma Q M = Inr p"
    using american_params_InrD[OF assms(2)] by simp
  obtain V S where run: "CRR_american_option_value S0 K T r sigma otype Q M = Inr (V, S)"
    using american_returns[OF assms(2) M, of S0 K otype] by blast
  obtain V' S' where e: "CRR_european_option_value S0 K T r sigma otype Q M = Inr (V', S')"
    using european_returns[OF lp M, of S0 K otype] by blast
  have sqS: "square (Suc (nat M)) S" and sqV: "square (Suc (nat M)) V"
    and Vnth: "\<And>i j. i \<le> nat M \<Longrightarrow> j \<le> nat M \<Longrightarrow>
           V ! i ! j =
             (if j < nat M \<and> i \<le> j
              then max ((p_q ?p * V ! i ! (j + 1) + (1 - p_q ?p) * V ! (i + 1) ! (j + 1)) * p_df ?p)
                       (if otype = ''call'' then S0 * exp (r * p_dt ?p) ^ j - K
                        else K - S0 * exp (r * p_dt ?p) ^ j)
              else if otype = ''call'' then max (S ! i ! j - K) 0 else max (K - S ! i ! j) 0)"
    using american_cells[OF run assms(1)] by simp_all
  have terminal: "cell V i (nat M) =
      Inr (if otype = ''call'' then max (S ! i ! nat M - K) 0 else max (K - S ! i ! nat M) 0)"
    if "i \<le> nat M" for i
    using Vnth[OF that order_refl] cell_square[OF sqV, of i "nat M"] that by simp
  have SS: "S' = S"
  proof -
    obtain p' where "S' = stock_prices S0 (p_u p') (p_d p') (column_indices (nat (M + 1)))"
      and p': "lattice_params T r sigma Q M = Inr p'"
      using european_InrD[OF e] by blast
    moreover obtain p'' where "S = stock_prices S0 (p_u p'') (p_d p'') (column_indices (nat (M + 1)))"
      and "lattice_params T r sigma Q M = Inr p''"
      using american_InrD[OF run] by blast
    ultimately show ?thesis by simp
  qed
  have same: "\<exists>V'. CRR_european_option_value S0 K T r sigma otype Q M = Inr (V', S) \<and>
                 (\<forall>i\<le>nat M. cell V i (nat M) = cell V' i (nat M))"
  proof -
    have sqV': "square (Suc (nat M)) V'"
      and V'nth: "\<And>i j. i \<le> nat M \<Longrightarrow> j \<le> nat M \<Longrightarrow>
           V' ! i ! j =
             (if j < nat M \<and> i \<le> j
              then (p_q ?p * V' ! i ! (j + 1) + (1 - p_q ?p) * V' ! (i + 1) ! (j + 1)) * p_df ?p
              else if otype = ''call'' then max (S' ! i ! j - K) 0 else max (K - S' ! i ! j) 0)"
      using european_cells[OF e assms(1)] by simp_all
    have "cell V i (nat M) = cell V' i (nat M)" if "i \<le> nat M" for i
      using terminal[OF that] V'nth[OF that order_refl] cell_square[OF sqV', of i "nat M"] that SS
      by simp
    then show ?thesis using e SS by blast
  qed
  have inner: "cell V i j =
      Inr (max (p_df ?p * (p_q ?p * V ! i ! (j + 1) + (1 - p_q ?p) * V ! (i + 1) ! (j + 1)))
               (if otype = ''call'' then S0 * exp (r * p_dt ?p) ^ j - K
                else K - S0 * exp (r * p_dt ?p) ^ j))"
    if "j < nat M" "i \<le> j" for i j
  proof -
    have "V ! i ! j = max ((p_q ?p * V ! i ! (j + 1) + (1 - p_q ?p) * V ! (i + 1) ! (j + 1)) * p_df ?p)
                       (if otype = ''call'' then S0 * exp (r * p_dt ?p) ^ j - K
                        else K - S0 * exp (r * p_dt ?p) ^ j)"
      using Vnth[of i j] that by simp
    then show ?thesis using cell_square[OF sqV, of i j] that by (simp add: mult.commute)
  qed
  have "CRR_american_option_value S0 K T r sigma otype Q M = Inr (V, S) \<and>
        square (Suc (nat M)) V \<and> square (Suc (nat M)) S \<and>
        (\<forall>i\<le>nat M. cell V i (nat M) =
           Inr (if otype = ''call'' then max (S ! i ! nat M - K) 0 else max (K - S ! i ! nat M) 0)) \<and>
        (\<exists>V'. CRR_european_option_value S0 K T r sigma otype Q M = Inr (V', S) \<and>
           (\<forall>i\<le>nat M. cell V i (nat M) = cell V' i (nat M))) \<and>
        (\<forall>j<nat M. \<forall>i\<le>j. cell V i j =
           Inr (max (p_df ?p * (p_q ?p * V ! i ! (j + 1) + (1 - p_q ?p) * V ! (i + 1) ! (j + 1)))
                    (if otype = ''call'' then S0 * exp (r * p_dt ?p) ^ j - K
                     else K - S0 * exp (r * p_dt ?p) ^ j)))"
    using run sqV sqS terminal same inner by (intro conjI allI impI)
  then show ?thesis
    unfolding Let_def tree_q tree_df tree_dt by (intro exI)
qed

theorem american_backward_induction_witness:
  "(1::int) \<le> 2 \<and>
   american_params 2 0 (ln 2) (ln 4) 2 =
     Inr (\<lparr>p_dt = 1, p_df = 1, p_u = 2, p_d = 1 / 2, p_q = - (1 / 6)\<rparr>, 1) \<and>
   CRR_american_option_value 100 100 2 0 (ln 2) ''call'' (ln 4) 2 =
     Inr ([[0, 0, 300], [0, 0, 0], [0, 0, 0]],
          [[100, 200, 400], [25, 50, 100], [25 / 4, 25 / 2, 25]]) \<and>
   CRR_european_option_value 100 100 2 0 (ln 2) ''call'' (ln 4) 2 =
     Inr ([[25 / 3, - 50, 300], [0, 0, 0], [0, 0, 0]],
          [[100, 200, 400], [25, 50, 100], [25 / 4, 25 / 2, 25]]) \<and>
   cell [[0, 0, 300], [0, 0, 0], [0, 0, 0]] 0 2 = cell [[25 / 3, - 50, 300], [0, 0, 0], [0, 0, 0]] 0 2 \<and>
   cell [[0, 0, 300], [0, 0, 0], [0, 0, 0]] 0 2 = Inr (max (400 - 100) 0) \<and>
   cell [[0, 0, 300], [0, 0, 0], [0, 0, 0]] 0 1 =
     Inr (max (1 * (- (1 / 6) * 300 + (1 - - (1 / 6)) * 0)) (100 * 1 ^ 1 - 100)) \<and>
   cell [[0, 0, 300], [0, 0, 0], [0, 0, 0]] 0 0 =
     Inr (max (1 * (- (1 / 6) * 0 + (1 - - (1 / 6)) * 0)) (100 * 1 ^ 0 - 100))"
  using american_backward_induction[OF _ american_params_2, of 100 100 "''call''"]
    american_params_2 american_run_2 european_run_2
  by (simp add: cell_def)

text \<open>
  The claim as stated fails at the parameters of the source's own calls with zero
  volatility: the American pricer raises in line 75 and sets no cell.
\<close>

theorem american_sets_nothing_counterexample:
  "CRR_american_option_value 100 100 1 (5 / 100) 0 ''call'' (2 / 100) 4 = Inl ZeroDivisionError"
  by (rule american_error[OF american_params_flat])

section \<open>What the backward induction writes\<close>

text \<open>
  The cells a slice assignment lists are the cells \<open>set_col\<close> writes: a listed cell
  holds the assigned value afterwards, and every other cell of the array is as it was.
\<close>

lemma assigned_cells_iff:
  "(a, i, j) \<in> set (assigned_cells g) \<longleftrightarrow>
     a = sa_target g \<and> sa_first g \<le> i \<and> i < sa_stop g \<and> j = sa_col g"
  by (auto simp: assigned_cells_def)

lemma assign_outside:
  assumes "(sa_target g, i, j) \<notin> set (assigned_cells g)" "i < length A"
  shows "assign A g ! i ! j = A ! i ! j"
  using assms unfolding assigned_cells_iff by (auto simp: assign_def set_col_def)

lemma assign_inside:
  assumes "(sa_target g, i, j) \<in> set (assigned_cells g)" "i < length A" "j < length (A ! i)"
  shows "assign A g ! i ! j = sa_vals g ! (i - sa_first g)"
  using assms unfolding assigned_cells_iff by (auto simp: assign_def set_col_def)

lemma arrays_of_V: "arrays_of V S Array_V = V"
  by (simp add: arrays_of_def)

lemma arrays_of_S: "arrays_of V S Array_S = S"
  by (simp add: arrays_of_def)

lemma arrays_of_upd: "(arrays_of V S)(Array_V := W) = arrays_of W S"
  by (rule ext) (simp add: arrays_of_def split: array_id.splits)

lemma european_pass_arrays:
  "european_pass q df m z (arrays_of V S, ws) =
     (arrays_of (european_step q df m z V) S, ws @ map (\<lambda>i. (Array_V, i, m - z - 1)) [0..<m - z])"
proof -
  let ?g = "european_assignment q df m z V"
  have g: "sa_target ?g = Array_V" "sa_first ?g = 0" "sa_stop ?g = m - z" "sa_col ?g = m - z - 1"
    by (simp_all add: european_assignment_def)
  show ?thesis
    by (simp add: european_pass_def execute_def assigned_cells_def g arrays_of_V arrays_of_upd
        european_step_def)
qed

lemma american_pass_arrays:
  "american_pass q df oreturn m z (arrays_of V S, ws) =
     (arrays_of (american_step q df oreturn m z V) S,
      ws @ map (\<lambda>i. (Array_V, i, m - z - 1)) [0..<m - z])"
proof -
  let ?g = "american_assignment q df oreturn m z V"
  have g: "sa_target ?g = Array_V" "sa_first ?g = 0" "sa_stop ?g = m - z" "sa_col ?g = m - z - 1"
    by (simp_all add: american_assignment_def Let_def)
  show ?thesis
    by (simp add: american_pass_def execute_def assigned_cells_def g arrays_of_V arrays_of_upd
        american_step_def)
qed

lemma backward_writes_Suc:
  "backward_writes m (Suc k) = backward_writes m k @ map (\<lambda>i. (Array_V, i, m - k - 1)) [0..<m - k]"
  by (simp add: backward_writes_def)

lemma european_fold_pass:
  "fold (european_pass q df m) [0..<k] (arrays_of V S, []) =
     (arrays_of (fold (european_step q df m) [0..<k] V) S, backward_writes m k)"
proof (induction k)
  case 0
  show ?case by (simp add: backward_writes_def)
next
  case (Suc k)
  show ?case by (simp add: Suc european_pass_arrays backward_writes_Suc)
qed

lemma american_fold_pass:
  "fold (american_pass q df oreturn m) [0..<k] (arrays_of V S, []) =
     (arrays_of (fold (american_step q df oreturn m) [0..<k] V) S, backward_writes m k)"
proof (induction k)
  case 0
  show ?case by (simp add: backward_writes_def)
next
  case (Suc k)
  show ?case by (simp add: Suc american_pass_arrays backward_writes_Suc)
qed

lemma european_trace_eq:
  "european_trace q df M (arrays_of V S) =
     (arrays_of (european_loop q df M V) S, backward_writes (nat M) (nat M))"
  by (simp add: european_trace_def european_fold_pass european_loop_def)

lemma american_trace_eq:
  "american_trace q df oreturn M (arrays_of V S) =
     (arrays_of (american_loop q df oreturn M V) S, backward_writes (nat M) (nat M))"
  by (simp add: american_trace_def american_fold_pass american_loop_def)

lemma set_backward_writes:
  "k \<le> m \<Longrightarrow>
   set (backward_writes m k) = {(Array_V, i, j) | i j. m - k \<le> j \<and> j < m \<and> i \<le> j}"
proof (induction k)
  case 0
  then show ?case by (auto simp: backward_writes_def)
next
  case (Suc k)
  then have "set (backward_writes m (Suc k)) =
      {(Array_V, i, j) | i j. m - k \<le> j \<and> j < m \<and> i \<le> j} \<union>
      {(Array_V, i, j) | i j. i < m - k \<and> j = m - k - 1}"
    by (auto simp: backward_writes_Suc)
  also have "\<dots> = {(Array_V, i, j) | i j. m - Suc k \<le> j \<and> j < m \<and> i \<le> j}"
    using Suc.prems by auto
  finally show ?case .
qed

lemma sorted_backward_writes:
  "k \<le> m \<Longrightarrow> sorted_wrt (\<lambda>x y. snd (snd y) \<le> snd (snd x)) (backward_writes m k)"
proof (induction k)
  case 0
  then show ?case by (simp add: backward_writes_def)
next
  case (Suc k)
  have new: "sorted_wrt (\<lambda>x y. snd (snd y) \<le> snd (snd x))
               (map (\<lambda>i. (Array_V, i, m - k - 1)) [0..<m - k])"
    by (simp add: sorted_wrt_map)
  have cross: "\<forall>x\<in>set (backward_writes m k).
                 \<forall>y\<in>set (map (\<lambda>i. (Array_V, i, m - k - 1)) [0..<m - k]). snd (snd y) \<le> snd (snd x)"
    using Suc.prems by (auto simp: set_backward_writes)
  show ?case
    unfolding backward_writes_Suc sorted_wrt_append using Suc new cross by simp
qed

lemma backward_writes_order:
  assumes "a < b" "b < length (backward_writes m m)"
  shows "snd (snd (backward_writes m m ! b)) \<le> snd (snd (backward_writes m m ! a))"
  using sorted_backward_writes[of m m] assms by (simp add: sorted_wrt_iff_nth_less)

lemma backward_writes_2:
  "backward_writes 2 2 = [(Array_V, 0, 1), (Array_V, 1, 1), (Array_V, 0, 0)]"
  by (simp add: backward_writes_def upt_rec numeral_2_eq_2)

lemma backward_writes_log:
  "set (backward_writes (nat M) (nat M)) = {(Array_V, i, j) | i j. j < nat M \<and> i \<le> j} \<and>
   (\<forall>a b. a < b \<and> b < length (backward_writes (nat M) (nat M)) \<longrightarrow>
      snd (snd (backward_writes (nat M) (nat M) ! b)) \<le> snd (snd (backward_writes (nat M) (nat M) ! a)))"
  using set_backward_writes[of "nat M" "nat M"] backward_writes_order[of _ _ "nat M"] by simp

text \<open>
  Claim C9 states that for every input with \<open>M \<ge> 1\<close> the backward induction of either
  pricer leaves \<open>S\<close> unchanged, overwrites every cell of \<open>V\<close> in a column \<open>j < M\<close> with
  \<open>i \<le> j\<close>, and writes a column only after all columns to its right. Where lines 29-35
  or 68-75 raise, as at \<open>sigma = 0\<close>, there is no induction and no cell is overwritten.
  The claim as amended: for every input with \<open>M \<ge> 1\<close> on which lines 29-35 (for the
  American pricer, lines 68-75) raise nothing, the pricer returns; the assignments of its
  loop, carried out on the arrays \<open>V\<close> and \<open>S\<close> the pricer has before the loop, all
  target \<open>V\<close>, end with the \<open>V\<close> the pricer returns and with \<open>S\<close> as it was, assign exactly
  the cells \<open>(i, j)\<close> of \<open>V\<close> with \<open>j < M\<close> and \<open>i \<le> j\<close>, and never assign a column
  after a column to its left; every assigned cell holds the value of the recurrence, and
  every other cell of \<open>V\<close> the value it had before the loop.
\<close>

theorem backward_induction_frame:
  assumes "1 \<le> M"
    and "lattice_params T r sigma Q M = Inr p"
  shows "(\<exists>V S A ws.
            CRR_european_option_value S0 K T r sigma otype Q M = Inr (V, S) \<and>
            european_trace (p_q p) (p_df p) M (arrays_of (inner_values otype K S) S) = (A, ws) \<and>
            A Array_V = V \<and> A Array_S = S \<and>
            set ws = {(Array_V, i, j) | i j. j < nat M \<and> i \<le> j} \<and>
            (\<forall>a b. a < b \<and> b < length ws \<longrightarrow> snd (snd (ws ! b)) \<le> snd (snd (ws ! a))) \<and>
            (\<forall>i j. i \<le> nat M \<and> j \<le> nat M \<longrightarrow>
               cell V i j =
                 Inr (if (Array_V, i, j) \<in> set ws
                      then (p_q p * V ! i ! (j + 1) + (1 - p_q p) * V ! (i + 1) ! (j + 1)) * p_df p
                      else inner_values otype K S ! i ! j))) \<and>
         (\<forall>g mu. american_params T r sigma Q M = Inr (p, g) \<and> power_matrix M = Inr mu \<longrightarrow>
            (\<exists>V S A ws.
               CRR_american_option_value S0 K T r sigma otype Q M = Inr (V, S) \<and>
               american_trace (p_q p) (p_df p) (advance_exercise otype S0 K g mu) M
                 (arrays_of (inner_values otype K S) S) = (A, ws) \<and>
               A Array_V = V \<and> A Array_S = S \<and>
               set ws = {(Array_V, i, j) | i j. j < nat M \<and> i \<le> j} \<and>
               (\<forall>a b. a < b \<and> b < length ws \<longrightarrow> snd (snd (ws ! b)) \<le> snd (snd (ws ! a))) \<and>
               (\<forall>i j. i \<le> nat M \<and> j \<le> nat M \<longrightarrow>
                  cell V i j =
                    Inr (if (Array_V, i, j) \<in> set ws
                         then max ((p_q p * V ! i ! (j + 1) + (1 - p_q p) * V ! (i + 1) ! (j + 1)) * p_df p)
                                  (advance_exercise otype S0 K g mu ! i ! j)
                         else inner_values otype K S ! i ! j))))"
proof -
  let ?ws = "backward_writes (nat M) (nat M)"
  let ?mu = "column_indices (nat (M + 1))"
  let ?S = "stock_prices S0 (p_u p) (p_d p) ?mu"
  let ?W = "inner_values otype K ?S"
  have M: "-1 \<le> M" using assms(1) by simp
  have n: "nat (M + 1) = Suc (nat M)" using assms(1) by simp
  have sqS: "square (Suc (nat M)) ?S"
    unfolding n by (rule square_stock_prices[OF square_column_indices])
  have sqV0: "square (Suc (nat M)) ?W"
    by (rule square_inner_values[OF sqS])
  have s: "set ?ws = {(Array_V, i, j) | i j. j < nat M \<and> i \<le> j}"
    and ord: "\<forall>a b. a < b \<and> b < length ?ws \<longrightarrow> snd (snd (?ws ! b)) \<le> snd (snd (?ws ! a))"
    using backward_writes_log[of M] by simp_all
  have mem: "(Array_V, i, j) \<in> set ?ws \<longleftrightarrow> j < nat M \<and> i \<le> j" for i j
    unfolding s by simp
  have european: "\<exists>V S A ws.
            CRR_european_option_value S0 K T r sigma otype Q M = Inr (V, S) \<and>
            european_trace (p_q p) (p_df p) M (arrays_of (inner_values otype K S) S) = (A, ws) \<and>
            A Array_V = V \<and> A Array_S = S \<and>
            set ws = {(Array_V, i, j) | i j. j < nat M \<and> i \<le> j} \<and>
            (\<forall>a b. a < b \<and> b < length ws \<longrightarrow> snd (snd (ws ! b)) \<le> snd (snd (ws ! a))) \<and>
            (\<forall>i j. i \<le> nat M \<and> j \<le> nat M \<longrightarrow>
               cell V i j =
                 Inr (if (Array_V, i, j) \<in> set ws
                      then (p_q p * V ! i ! (j + 1) + (1 - p_q p) * V ! (i + 1) ! (j + 1)) * p_df p
                      else inner_values otype K S ! i ! j))"
  proof -
    let ?V = "european_loop (p_q p) (p_df p) M ?W"
    have run: "CRR_european_option_value S0 K T r sigma otype Q M = Inr (?V, ?S)"
      by (rule european_unfold[OF assms(2) M])
    have tr: "european_trace (p_q p) (p_df p) M (arrays_of ?W ?S) = (arrays_of ?V ?S, ?ws)"
      by (rule european_trace_eq)
    have sqV: "square (Suc (nat M)) ?V" by (rule square_european_loop[OF sqV0])
    have cells: "cell ?V i j =
                 Inr (if (Array_V, i, j) \<in> set ?ws
                      then (p_q p * ?V ! i ! (j + 1) + (1 - p_q p) * ?V ! (i + 1) ! (j + 1)) * p_df p
                      else ?W ! i ! j)"
      if "i \<le> nat M \<and> j \<le> nat M" for i j
    proof -
      have ij: "i \<le> nat M" "j \<le> nat M" using that by simp_all
      have "cell ?V i j = Inr (?V ! i ! j)" using cell_square[OF sqV, of i j] ij by simp
      then show ?thesis by (simp only: european_loop_cells[OF sqV0 ij] mem)
    qed
    show ?thesis
      using run tr arrays_of_V[of ?V ?S] arrays_of_S[of ?V ?S] s ord[rule_format] cells
      by (intro exI conjI allI impI)
  qed
  have american: "\<exists>V S A ws.
               CRR_american_option_value S0 K T r sigma otype Q M = Inr (V, S) \<and>
               american_trace (p_q p) (p_df p) (advance_exercise otype S0 K g mu) M
                 (arrays_of (inner_values otype K S) S) = (A, ws) \<and>
               A Array_V = V \<and> A Array_S = S \<and>
               set ws = {(Array_V, i, j) | i j. j < nat M \<and> i \<le> j} \<and>
               (\<forall>a b. a < b \<and> b < length ws \<longrightarrow> snd (snd (ws ! b)) \<le> snd (snd (ws ! a))) \<and>
               (\<forall>i j. i \<le> nat M \<and> j \<le> nat M \<longrightarrow>
                  cell V i j =
                    Inr (if (Array_V, i, j) \<in> set ws
                         then max ((p_q p * V ! i ! (j + 1) + (1 - p_q p) * V ! (i + 1) ! (j + 1)) * p_df p)
                                  (advance_exercise otype S0 K g mu ! i ! j)
                         else inner_values otype K S ! i ! j))"
    if h: "american_params T r sigma Q M = Inr (p, g) \<and> power_matrix M = Inr mu" for g mu
  proof -
    have ap: "american_params T r sigma Q M = Inr (p, g)" using h by simp
    have mu: "mu = ?mu" using power_matrix_ok[OF M] h by simp
    let ?o = "advance_exercise otype S0 K g ?mu"
    let ?V = "american_loop (p_q p) (p_df p) ?o M ?W"
    have sqo: "square (Suc (nat M)) ?o"
      unfolding n by (rule square_advance_exercise[OF square_column_indices])
    have run: "CRR_american_option_value S0 K T r sigma otype Q M = Inr (?V, ?S)"
      by (rule american_unfold[OF ap M])
    have tr: "american_trace (p_q p) (p_df p) ?o M (arrays_of ?W ?S) = (arrays_of ?V ?S, ?ws)"
      by (rule american_trace_eq)
    have sqV: "square (Suc (nat M)) ?V" by (rule square_american_loop[OF sqV0 sqo])
    have cells: "cell ?V i j =
                 Inr (if (Array_V, i, j) \<in> set ?ws
                      then max ((p_q p * ?V ! i ! (j + 1) + (1 - p_q p) * ?V ! (i + 1) ! (j + 1)) * p_df p)
                               (?o ! i ! j)
                      else ?W ! i ! j)"
      if "i \<le> nat M \<and> j \<le> nat M" for i j
    proof -
      have ij: "i \<le> nat M" "j \<le> nat M" using that by simp_all
      have "cell ?V i j = Inr (?V ! i ! j)" using cell_square[OF sqV, of i j] ij by simp
      then show ?thesis by (simp only: american_loop_cells[OF sqV0 sqo ij] mem)
    qed
    show ?thesis
      unfolding mu
      using run tr arrays_of_V[of ?V ?S] arrays_of_S[of ?V ?S] s ord[rule_format] cells
      by (intro exI conjI allI impI)
  qed
  show ?thesis using european american by (intro conjI allI impI)
qed

theorem backward_induction_frame_witness:
  "(1::int) \<le> 2 \<and>
   lattice_params 2 0 (ln 2) (ln 4) 2 =
     Inr \<lparr>p_dt = 1, p_df = 1, p_u = 2, p_d = 1 / 2, p_q = - (1 / 6)\<rparr> \<and>
   american_params 2 0 (ln 2) (ln 4) 2 =
     Inr (\<lparr>p_dt = 1, p_df = 1, p_u = 2, p_d = 1 / 2, p_q = - (1 / 6)\<rparr>, 1) \<and>
   power_matrix 2 = Inr [[0, 1, 2], [0, 1, 2], [0, 1, 2]] \<and>
   (\<exists>A ws.
      european_trace (- (1 / 6)) 1 2
        (arrays_of (inner_values ''call'' 100 [[100, 200, 400], [25, 50, 100], [25 / 4, 25 / 2, 25]])
           [[100, 200, 400], [25, 50, 100], [25 / 4, 25 / 2, 25]]) = (A, ws) \<and>
      A Array_V = [[25 / 3, - 50, 300], [0, 0, 0], [0, 0, 0]] \<and>
      A Array_S = [[100, 200, 400], [25, 50, 100], [25 / 4, 25 / 2, 25]] \<and>
      ws = [(Array_V, 0, 1), (Array_V, 1, 1), (Array_V, 0, 0)]) \<and>
   (\<exists>A ws.
      american_trace (- (1 / 6)) 1
        (advance_exercise ''call'' 100 100 1 [[0, 1, 2], [0, 1, 2], [0, 1, 2]]) 2
        (arrays_of (inner_values ''call'' 100 [[100, 200, 400], [25, 50, 100], [25 / 4, 25 / 2, 25]])
           [[100, 200, 400], [25, 50, 100], [25 / 4, 25 / 2, 25]]) = (A, ws) \<and>
      A Array_V = [[0, 0, 300], [0, 0, 0], [0, 0, 0]] \<and>
      A Array_S = [[100, 200, 400], [25, 50, 100], [25 / 4, 25 / 2, 25]] \<and>
      ws = [(Array_V, 0, 1), (Array_V, 1, 1), (Array_V, 0, 0)])"
proof -
  let ?S = "[[100, 200, 400], [25, 50, 100], [25 / 4, 25 / 2, 25]] :: matrix"
  let ?p = "\<lparr>p_dt = 1, p_df = 1, p_u = 2, p_d = 1 / 2, p_q = - (1 / 6)\<rparr>"
  have M: "(1::int) \<le> 2" by simp
  note frame = backward_induction_frame[OF M lattice_params_2, of 100 100 "''call''"]
  have e: "\<exists>A ws.
      european_trace (- (1 / 6)) 1 2 (arrays_of (inner_values ''call'' 100 ?S) ?S) = (A, ws) \<and>
      A Array_V = [[25 / 3, - 50, 300], [0, 0, 0], [0, 0, 0]] \<and> A Array_S = ?S \<and>
      ws = [(Array_V, 0, 1), (Array_V, 1, 1), (Array_V, 0, 0)]"
  proof -
    obtain V S A ws where
      run: "CRR_european_option_value 100 100 2 0 (ln 2) ''call'' (ln 4) 2 = Inr (V, S)"
      and tr: "european_trace (p_q ?p) (p_df ?p) 2 (arrays_of (inner_values ''call'' 100 S) S) = (A, ws)"
      and A: "A Array_V = V" "A Array_S = S"
      using frame by auto
    have VS: "V = [[25 / 3, - 50, 300], [0, 0, 0], [0, 0, 0]]" "S = ?S"
      using run european_run_2 by simp_all
    have "ws = [(Array_V, 0, 1), (Array_V, 1, 1), (Array_V, 0, 0)]"
      using tr unfolding european_trace_eq by (simp add: backward_writes_2)
    then show ?thesis using tr A unfolding VS by simp
  qed
  have a: "\<exists>A ws.
      american_trace (- (1 / 6)) 1
        (advance_exercise ''call'' 100 100 1 [[0, 1, 2], [0, 1, 2], [0, 1, 2]]) 2
        (arrays_of (inner_values ''call'' 100 ?S) ?S) = (A, ws) \<and>
      A Array_V = [[0, 0, 300], [0, 0, 0], [0, 0, 0]] \<and> A Array_S = ?S \<and>
      ws = [(Array_V, 0, 1), (Array_V, 1, 1), (Array_V, 0, 0)]"
  proof -
    obtain V S A ws where
      run: "CRR_american_option_value 100 100 2 0 (ln 2) ''call'' (ln 4) 2 = Inr (V, S)"
      and tr: "american_trace (p_q ?p) (p_df ?p)
                 (advance_exercise ''call'' 100 100 1 [[0, 1, 2], [0, 1, 2], [0, 1, 2]]) 2
                 (arrays_of (inner_values ''call'' 100 S) S) = (A, ws)"
      and A: "A Array_V = V" "A Array_S = S"
      using frame[THEN conjunct2, rule_format, OF conjI[OF american_params_2 power_matrix_2]]
      by auto
    have VS: "V = [[0, 0, 300], [0, 0, 0], [0, 0, 0]]" "S = ?S"
      using run american_run_2 by simp_all
    have "ws = [(Array_V, 0, 1), (Array_V, 1, 1), (Array_V, 0, 0)]"
      using tr unfolding american_trace_eq by (simp add: backward_writes_2)
    then show ?thesis using tr A unfolding VS by simp
  qed
  show ?thesis using e a lattice_params_2 american_params_2 power_matrix_2 by simp
qed

text \<open>
  The claim as stated fails at the parameters of the source's own calls with zero
  volatility: both pricers raise before their loops, and no cell is overwritten.
\<close>

theorem nothing_overwritten_counterexample:
  "CRR_european_option_value 100 100 1 (5 / 100) 0 ''call'' (2 / 100) 4 = Inl ZeroDivisionError \<and>
   CRR_american_option_value 100 100 1 (5 / 100) 0 ''put'' (2 / 100) 4 = Inl ZeroDivisionError"
  using european_error[OF lattice_params_flat, of 100 100 "''call''"]
    american_error[OF american_params_flat, of 100 100 "''put''"]
  by simp

section \<open>American against European value\<close>

lemma american_ge_european_cells:
  fixes Ve Va :: matrix
  assumes Ve: "\<And>i j. i \<le> m \<Longrightarrow> j \<le> m \<Longrightarrow>
           Ve ! i ! j = (if j < m \<and> i \<le> j
                         then (q * Ve ! i ! (j + 1) + (1 - q) * Ve ! (i + 1) ! (j + 1)) * df
                         else pay i j)"
    and Va: "\<And>i j. i \<le> m \<Longrightarrow> j \<le> m \<Longrightarrow>
           Va ! i ! j = (if j < m \<and> i \<le> j
                         then max ((q * Va ! i ! (j + 1) + (1 - q) * Va ! (i + 1) ! (j + 1)) * df) (ex j)
                         else pay i j)"
    and q: "0 \<le> q" "q \<le> 1" and df: "0 \<le> df"
  shows "n \<le> m \<Longrightarrow> \<forall>i\<le>m. Ve ! i ! (m - n) \<le> Va ! i ! (m - n)"
proof (induction n)
  case 0
  show ?case using Ve[of _ m] Va[of _ m] by simp
next
  case (Suc n)
  then have IH: "\<And>i. i \<le> m \<Longrightarrow> Ve ! i ! (m - n) \<le> Va ! i ! (m - n)" by simp
  let ?j = "m - Suc n"
  have j: "?j < m" "?j + 1 = m - n" "?j \<le> m" using Suc.prems by simp_all
  show ?case
  proof (intro allI impI)
    fix i assume i: "i \<le> m"
    show "Ve ! i ! ?j \<le> Va ! i ! ?j"
    proof (cases "i \<le> ?j")
      case True
      then have i1: "i + 1 \<le> m" using j(1) by simp
      have a: "Ve ! i ! (m - n) \<le> Va ! i ! (m - n)" by (rule IH[OF i])
      have b: "Ve ! (i + 1) ! (m - n) \<le> Va ! (i + 1) ! (m - n)" by (rule IH[OF i1])
      have "q * Ve ! i ! (m - n) + (1 - q) * Ve ! (i + 1) ! (m - n)
              \<le> q * Va ! i ! (m - n) + (1 - q) * Va ! (i + 1) ! (m - n)"
        using a b q by (intro add_mono mult_left_mono) simp_all
      then have "(q * Ve ! i ! (m - n) + (1 - q) * Ve ! (i + 1) ! (m - n)) * df
              \<le> (q * Va ! i ! (m - n) + (1 - q) * Va ! (i + 1) ! (m - n)) * df"
        using df by (rule mult_right_mono)
      moreover have "Ve ! i ! ?j = (q * Ve ! i ! (m - n) + (1 - q) * Ve ! (i + 1) ! (m - n)) * df"
        using Ve[OF i j(3)] True j(1,2) by simp
      moreover have "Va ! i ! ?j =
          max ((q * Va ! i ! (m - n) + (1 - q) * Va ! (i + 1) ! (m - n)) * df) (ex ?j)"
        using Va[OF i j(3)] True j(1,2) by simp
      ultimately show ?thesis by (simp add: max.coboundedI1)
    next
      case False
      then show ?thesis using Ve[OF i j(3)] Va[OF i j(3)] by simp
    qed
  qed
qed

text \<open>
  Claim C4 states that for every valid input the American present value \<open>V[0,0]\<close> is at
  least the European one. The pricers accept a branch probability \<open>q\<close> outside
  \<open>[0, 1]\<close>, and there the discounted expectation is not monotone. The claim as amended:
  for every input with \<open>M \<ge> 1\<close> on which both pricers return and whose \<open>q\<close> lies in
  \<open>[0, 1]\<close>, the American \<open>V[0,0]\<close> is at least the European \<open>V[0,0]\<close>.
\<close>

theorem american_ge_european:
  assumes "1 \<le> M"
    and "CRR_european_option_value S0 K T r sigma otype Q M = Inr (Ve, Se)"
    and "CRR_american_option_value S0 K T r sigma otype Q M = Inr (Va, Sa)"
  shows "let dt = T / real_of_int M; u = exp (sigma * sqrt dt); d = 1 / u;
             q = (exp ((r - Q) * dt) - d) / (u - d)
         in 0 \<le> q \<and> q \<le> 1 \<longrightarrow>
            (\<exists>ve va. cell Ve 0 0 = Inr ve \<and> cell Va 0 0 = Inr va \<and> ve \<le> va)"
proof -
  let ?p = "tree T r sigma Q M"
  let ?m = "nat M"
  let ?pay = "\<lambda>i j. if otype = ''call'' then max (Se ! i ! j - K) 0 else max (K - Se ! i ! j) 0"
  let ?ex = "\<lambda>j. if otype = ''call'' then S0 * exp (r * p_dt ?p) ^ j - K
                   else K - S0 * exp (r * p_dt ?p) ^ j"
  have sqVe: "square (Suc ?m) Ve"
    and Venth: "\<And>i j. i \<le> ?m \<Longrightarrow> j \<le> ?m \<Longrightarrow>
           Ve ! i ! j =
             (if j < ?m \<and> i \<le> j
              then (p_q ?p * Ve ! i ! (j + 1) + (1 - p_q ?p) * Ve ! (i + 1) ! (j + 1)) * p_df ?p
              else ?pay i j)"
    using european_cells[OF assms(2,1)] by simp_all
  have SS: "Sa = Se"
  proof -
    obtain p' where "Se = stock_prices S0 (p_u p') (p_d p') (column_indices (nat (M + 1)))"
      and "lattice_params T r sigma Q M = Inr p'"
      using european_InrD[OF assms(2)] by blast
    moreover obtain p'' where "Sa = stock_prices S0 (p_u p'') (p_d p'') (column_indices (nat (M + 1)))"
      and "lattice_params T r sigma Q M = Inr p''"
      using american_InrD[OF assms(3)] by blast
    ultimately show ?thesis by simp
  qed
  have sqVa: "square (Suc ?m) Va"
    and Vanth: "\<And>i j. i \<le> ?m \<Longrightarrow> j \<le> ?m \<Longrightarrow>
           Va ! i ! j =
             (if j < ?m \<and> i \<le> j
              then max ((p_q ?p * Va ! i ! (j + 1) + (1 - p_q ?p) * Va ! (i + 1) ! (j + 1)) * p_df ?p)
                       (?ex j)
              else ?pay i j)"
    using american_cells[OF assms(3,1)] unfolding SS by simp_all
  have df: "0 \<le> p_df ?p" by (simp add: tree_df)
  have "Ve ! 0 ! 0 \<le> Va ! 0 ! 0" if q: "0 \<le> p_q ?p" "p_q ?p \<le> 1"
    using american_ge_european_cells[of ?m Ve "p_q ?p" "p_df ?p" ?pay Va ?ex ?m, OF Venth Vanth q df]
    by simp
  moreover have "cell Ve 0 0 = Inr (Ve ! 0 ! 0)" using cell_square[OF sqVe, of 0 0] by simp
  moreover have "cell Va 0 0 = Inr (Va ! 0 ! 0)" using cell_square[OF sqVa, of 0 0] by simp
  ultimately show ?thesis unfolding Let_def tree_q by auto
qed

theorem american_ge_european_witness:
  "(1::int) \<le> 1 \<and>
   CRR_european_option_value 100 250 1 (ln 2) (ln 2) ''put'' (ln 2) 1 =
     Inr ([[75, 50], [225, 200]], [[100, 200], [25, 50]]) \<and>
   CRR_american_option_value 100 250 1 (ln 2) (ln 2) ''put'' (ln 2) 1 =
     Inr ([[150, 50], [225, 200]], [[100, 200], [25, 50]]) \<and>
   (0::real) \<le> (exp ((ln 2 - ln 2) * (1 / real_of_int 1)) - 1 / exp (ln 2 * sqrt (1 / real_of_int 1)))
                 / (exp (ln 2 * sqrt (1 / real_of_int 1)) - 1 / exp (ln 2 * sqrt (1 / real_of_int 1))) \<and>
   (exp ((ln 2 - ln 2) * (1 / real_of_int 1)) - 1 / exp (ln 2 * sqrt (1 / real_of_int 1)))
     / (exp (ln 2 * sqrt (1 / real_of_int 1)) - 1 / exp (ln 2 * sqrt (1 / real_of_int 1))) \<le> (1::real) \<and>
   (\<exists>ve va. cell [[75, 50], [225, 200]] 0 0 = Inr ve \<and> cell [[150, 50], [225, 200]] 0 0 = Inr va \<and>
            ve \<le> va)"
proof -
  have q: "(exp ((ln 2 - ln 2) * (1 / real_of_int 1)) - 1 / exp (ln 2 * sqrt (1 / real_of_int 1)))
                 / (exp (ln 2 * sqrt (1 / real_of_int 1)) - 1 / exp (ln 2 * sqrt (1 / real_of_int 1)))
           = (1 / 3 :: real)"
    by simp
  show ?thesis
    using american_ge_european[OF _ european_run_3 american_run_3] european_run_3 american_run_3
    unfolding Let_def q by simp
qed

text \<open>
  The claim as stated fails where \<open>q < 0\<close>: with \<open>S0 = K = 100\<close>, \<open>T = 2\<close>, \<open>r = 0\<close>,
  \<open>sigma = ln 2\<close>, \<open>Q = ln 4\<close> and \<open>M = 2\<close> the factors are \<open>u = 2\<close>, \<open>d = 1/2\<close>,
  \<open>q = - 1/6\<close>; the European call is worth \<open>25/3\<close> and the American call \<open>0\<close>.
\<close>

theorem american_below_european_counterexample:
  "CRR_european_option_value 100 100 2 0 (ln 2) ''call'' (ln 4) 2 =
     Inr ([[25 / 3, - 50, 300], [0, 0, 0], [0, 0, 0]],
          [[100, 200, 400], [25, 50, 100], [25 / 4, 25 / 2, 25]]) \<and>
   CRR_american_option_value 100 100 2 0 (ln 2) ''call'' (ln 4) 2 =
     Inr ([[0, 0, 300], [0, 0, 0], [0, 0, 0]],
          [[100, 200, 400], [25, 50, 100], [25 / 4, 25 / 2, 25]]) \<and>
   cell [[25 / 3, - 50, 300], [0, 0, 0], [0, 0, 0]] 0 0 = Inr (25 / 3) \<and>
   cell [[0, 0, 300], [0, 0, 0], [0, 0, 0]] 0 0 = Inr 0 \<and>
   (0::real) < 25 / 3"
  using european_run_2 american_run_2 by (simp add: cell_def)

section \<open>Rejected and accepted arguments\<close>

lemma american_params_zero: "american_params T r sigma Q 0 = Inl ZeroDivisionError"
  by (simp add: american_params_def time_step_zero)

text \<open>
  Claim C7 states that a pricer called with \<open>M = 0\<close> raises nothing and builds the
  single-node tree \<open>S[0,0] = S0\<close>. The source divides by \<open>M\<close> in its first statement
  (\<^verbatim>\<open>dt = T / M\<close>, lines 29 and 68). The claim as amended: called with \<open>M = 0\<close> and
  \<open>T\<close> a built-in Python float, as in the source's own calls, each pricer raises
  \<^verbatim>\<open>ZeroDivisionError\<close> and returns no lattice, whatever the other arguments. (A numpy
  scalar passed for \<open>T\<close> is divided by zero with a warning instead; it is not an
  argument of this embedding.)
\<close>

theorem pricers_zero_steps:
  "CRR_european_option_value S0 K T r sigma otype Q 0 = Inl ZeroDivisionError \<and>
   CRR_american_option_value S0 K T r sigma otype Q 0 = Inl ZeroDivisionError"
  by (simp add: european_error american_error lattice_params_zero american_params_zero)

text \<open>The claim as stated fails at the parameters of the source's own calls with \<open>M = 0\<close>.\<close>

theorem single_node_tree_counterexample:
  "CRR_european_option_value 100 100 1 (5 / 100) (2 / 10) ''call'' (2 / 100) 0 = Inl ZeroDivisionError \<and>
   CRR_american_option_value 100 100 1 (5 / 100) (2 / 10) ''call'' (2 / 100) 0 = Inl ZeroDivisionError"
  by (simp add: european_error american_error lattice_params_zero american_params_zero)




section \<open>Sensitivities on a shallow lattice\<close>

lemma square_empty: "square 0 []"
  by (simp add: square_def)

lemma pricer_shape:
  assumes "CRR_european_option_value S0 K T r sigma otype Q M = Inr (C, S) \<or>
           CRR_american_option_value S0 K T r sigma otype Q M = Inr (C, S)"
  shows "square (nat (M + 1)) C \<and> square (nat (M + 1)) S"
proof -
  have M: "-1 \<le> M \<and> M \<noteq> 0"
    using assms european_InrD[of S0 K T r sigma otype Q M C S]
      american_InrD[of S0 K T r sigma otype Q M C S] lattice_params_InrD[of T r sigma Q M]
    by blast
  show ?thesis
  proof (cases "1 \<le> M")
    case True
    then have n: "nat (M + 1) = Suc (nat M)" by simp
    show ?thesis
      unfolding n using assms european_cells[of S0 K T r sigma otype Q M C S]
        american_cells[of S0 K T r sigma otype Q M C S] True by blast
  next
    case False
    then have M1: "M = -1" using M by simp
    have e: "column_indices 0 = []" by (simp add: column_indices_def)
    have S: "stock_prices S0 a b [] = []" for a b
      by (simp add: stock_prices_def np_transpose_def mat_map_def mat_map2_def)
    have V: "inner_values otype K [] = []" by (simp add: inner_values_def mat_map_def)
    have "C = [] \<and> S = []"
      using assms european_InrD[of S0 K T r sigma otype Q M C S]
        american_InrD[of S0 K T r sigma otype Q M C S]
      unfolding M1 by (auto simp: e S V european_loop_def american_loop_def)
    then show ?thesis unfolding M1 by (simp add: square_empty)
  qed
qed

lemma cell_out_of_range:
  "square n C \<Longrightarrow> n \<le> i \<or> n \<le> j \<Longrightarrow> cell C i j = Inl IndexError"
  by (auto simp: cell_def square_def)

lemma gamma_index_error: "square n C \<Longrightarrow> n < 3 \<Longrightarrow> calculate_gamma C S = Inl IndexError"
  using cell_out_of_range[of n C 0 2] by (simp add: calculate_gamma_def)

lemma theta_index_error: "square n C \<Longrightarrow> n < 3 \<Longrightarrow> calculate_theta C dt = Inl IndexError"
  using cell_out_of_range[of n C 1 2] by (simp add: calculate_theta_def)

lemma delta_index_error: "square n C \<Longrightarrow> n < 2 \<Longrightarrow> calculate_delta C S = Inl IndexError"
  using cell_out_of_range[of n C 0 1] by (simp add: calculate_delta_def)

text \<open>
  Claim C6: on a lattice pair computed with depth \<open>M < 2\<close>, \<^verbatim>\<open>calculate_gamma\<close> and
  \<^verbatim>\<open>calculate_theta\<close> fail with an index error and return no value; on one computed
  with \<open>M < 1\<close>, \<^verbatim>\<open>calculate_delta\<close> fails so too. The arrays are numpy arrays, whose
  subscripts are checked.
\<close>

theorem greeks_out_of_range:
  assumes "CRR_european_option_value S0 K T r sigma otype Q M = Inr (C, S) \<or>
           CRR_american_option_value S0 K T r sigma otype Q M = Inr (C, S)"
  shows "(M < 2 \<longrightarrow> calculate_gamma C S = Inl IndexError \<and> calculate_theta C dt = Inl IndexError) \<and>
         (M < 1 \<longrightarrow> calculate_delta C S = Inl IndexError)"
proof -
  have sq: "square (nat (M + 1)) C" using pricer_shape[OF assms] by simp
  have "calculate_gamma C S = Inl IndexError \<and> calculate_theta C dt = Inl IndexError" if "M < 2"
    using gamma_index_error[OF sq, of S] theta_index_error[OF sq, of dt] that by simp
  moreover have "calculate_delta C S = Inl IndexError" if "M < 1"
    using delta_index_error[OF sq, of S] that by simp
  ultimately show ?thesis by blast
qed

theorem greeks_out_of_range_witness:
  "CRR_european_option_value 100 100 1 0 (ln 2) ''call'' 0 1 =
     Inr ([[100 / 3, 100], [0, 0]], [[100, 200], [25, 50]]) \<and>
   (1::int) < 2 \<and>
   calculate_gamma [[100 / 3, 100], [0, 0]] [[100, 200], [25, 50]] = Inl IndexError \<and>
   calculate_theta [[100 / 3, 100], [0, 0]] 1 = Inl IndexError \<and>
   CRR_european_option_value 100 100 (- 1) 0 (ln 2) ''call'' 0 (- 1) = Inr ([], []) \<and>
   (- 1::int) < 1 \<and>
   calculate_delta [] [] = Inl IndexError"
  using greeks_out_of_range[of 100 100 1 0 "ln 2" "''call''" 0 1 "[[100 / 3, 100], [0, 0]]"
      "[[100, 200], [25, 50]]" 1]
    greeks_out_of_range[of 100 100 "- 1" 0 "ln 2" "''call''" 0 "- 1" "[]" "[]" 1]
    european_run_1 european_run_back
  by simp

end
